theory Spec2Isabelle
  imports Complex_Main "HOL-Library.Sublist"
begin

section \<open>The filesystem the node works on\<close>

text \<open>
  The node reads and mutates the filesystem, the clock and the disk accounting; the
  embedding passes them around as an explicit \<open>world\<close>.

  \<^item> A path is the list of its components. The entries of the filesystem are an association
    list from paths to entries, in the order a directory walk yields them; a lookup takes
    the first binding of a path.
  \<^item> \<open>stat_fault\<close> of an entry is the exception that \<open>stat\<close> raises on its path, if any: for
    example \<open>PermissionError\<close> when a directory above it may not be searched, or
    \<open>NotADirectoryError\<close> when a directory above it has been replaced by a file.
  \<^item> \<open>remove_fault\<close> of an entry is the exception that removing this entry raises, if any:
    for example \<open>PermissionError\<close> when the directory that holds it is not writable. The
    fault \<open>FileNotFoundError\<close> stands for a file that another process removes between the
    moment the node looks at it and the moment the node tries to remove it.
  \<^item> \<open>probe_fault\<close> is the exception that reading the capacity of the filesystem raises,
    if any.
  \<^item> Timestamps and percentages are Python floats in the source; they are exact rationals
    here, so rounding is not modelled.
  \<^item> One filesystem holds every entry: the used bytes are the bytes of the regular files
    plus \<open>disk_other\<close>, the space used by everything that is not an entry.
  \<^item> \<open>time.time()\<close> reads \<open>clock\<close>; the clock does not advance while one call runs, and
    nothing but the node itself changes the world while it runs, apart from the race that
    \<open>remove_fault\<close> stands for. A candidate list that went stale before a function looks
    at it is covered by stating properties of the sort and of the loop for an arbitrary
    list of paths.
\<close>

type_synonym path = "string list"

datatype os_error =
  FileNotFoundError | PermissionError | IsADirectoryError | NotADirectoryError | OtherOSError

datatype kind = Regular | Directory

record entry =
  kind :: kind
  st_size :: nat
  st_mtime :: rat
  stat_fault :: "os_error option"
  remove_fault :: "os_error option"

record world =
  entries :: "(path \<times> entry) list"
  disk_total :: nat
  disk_other :: nat
  probe_fault :: "os_error option"
  clock :: rat
  home :: path
  cwd :: path

text \<open>\<open>Path.stat()\<close>: the entry of the path, or the exception raised.\<close>

definition stat :: "world \<Rightarrow> path \<Rightarrow> os_error + entry" where
  "stat w p =
     (case map_of (entries w) p of
        None \<Rightarrow> Inl FileNotFoundError
      | Some e \<Rightarrow> (case stat_fault e of Some err \<Rightarrow> Inl err | None \<Rightarrow> Inr e))"

text \<open>\<open>Path.exists()\<close>, \<open>Path.is_dir()\<close> and \<open>Path.is_file()\<close> answer \<open>False\<close> when \<open>stat\<close>
  fails, as \<open>os.path.exists\<close> and its siblings do; pathlib versions that pass some failures
  of \<open>stat\<close> on as exceptions are not modelled.\<close>

definition exists :: "world \<Rightarrow> path \<Rightarrow> bool" where
  "exists w p = (case stat w p of Inl _ \<Rightarrow> False | Inr _ \<Rightarrow> True)"

definition is_dir :: "world \<Rightarrow> path \<Rightarrow> bool" where
  "is_dir w p = (case stat w p of Inl _ \<Rightarrow> False | Inr e \<Rightarrow> kind e = Directory)"

definition is_file :: "world \<Rightarrow> path \<Rightarrow> bool" where
  "is_file w p = (case stat w p of Inl _ \<Rightarrow> False | Inr e \<Rightarrow> kind e = Regular)"

text \<open>\<open>Path.rglob("*")\<close>: every path strictly below the root, once, in walk order.\<close>

definition rglob :: "world \<Rightarrow> path \<Rightarrow> path list" where
  "rglob w d = remdups (filter (strict_prefix d) (map fst (entries w)))"

text \<open>
  \<open>Path.unlink(missing_ok=True)\<close>: a missing path is no error and changes nothing, and a
  file that has just been removed by someone else is no error either: the call returns and
  the file is gone. Any other fault is raised, and so is the attempt to unlink a directory.
\<close>

definition unlink :: "world \<Rightarrow> path \<Rightarrow> os_error + world" where
  "unlink w p =
     (case map_of (entries w) p of
        None \<Rightarrow> Inr w
      | Some e \<Rightarrow>
          (case remove_fault e of
             Some err \<Rightarrow>
               if err = FileNotFoundError
               then Inr (w\<lparr>entries := filter (\<lambda>qe. fst qe \<noteq> p) (entries w)\<rparr>)
               else Inl err
           | None \<Rightarrow>
               if kind e = Directory then Inl IsADirectoryError
               else Inr (w\<lparr>entries := filter (\<lambda>qe. fst qe \<noteq> p) (entries w)\<rparr>)))"

text \<open>
  \<open>shutil.rmtree(p, ignore_errors=True)\<close>: on a directory, every entry at or below \<open>p\<close> is
  removed unless its removal fails or something below it stays; every failure is ignored.
  On anything else the walk fails at once, the failure is ignored and nothing is removed.
\<close>

definition stuck :: "world \<Rightarrow> path \<Rightarrow> bool" where
  "stuck w q =
     list_ex (\<lambda>re. prefix q (fst re) \<and> remove_fault (snd re) \<noteq> None \<and>
                   remove_fault (snd re) \<noteq> Some FileNotFoundError) (entries w)"

definition rmtree :: "world \<Rightarrow> path \<Rightarrow> world" where
  "rmtree w p =
     (if is_dir w p
      then w\<lparr>entries := filter (\<lambda>qe. \<not> prefix p (fst qe) \<or> stuck w (fst qe)) (entries w)\<rparr>
      else w)"

definition disk_used :: "world \<Rightarrow> nat" where
  "disk_used w =
     disk_other w + sum_list (map (\<lambda>qe. st_size (snd qe)) (filter (\<lambda>qe. kind (snd qe) = Regular) (entries w)))"

section \<open>Strings and path names\<close>

text \<open>\<open>str.lower()\<close>, \<open>str.strip()\<close> and \<open>str.split(",")\<close> on ASCII text.\<close>

definition lower_char :: "char \<Rightarrow> char" where
  "lower_char c =
     (case map_of (zip ''ABCDEFGHIJKLMNOPQRSTUVWXYZ'' ''abcdefghijklmnopqrstuvwxyz'') c of
        None \<Rightarrow> c
      | Some l \<Rightarrow> l)"

definition lower :: "string \<Rightarrow> string" where
  "lower s = map lower_char s"

definition is_space :: "char \<Rightarrow> bool" where
  "is_space c =
     (c \<in> set [CHR 0x09, CHR 0x0A, CHR 0x0B, CHR 0x0C, CHR 0x0D,
                CHR 0x1C, CHR 0x1D, CHR 0x1E, CHR 0x1F, CHR '' ''])"

definition strip :: "string \<Rightarrow> string" where
  "strip s = rev (dropWhile is_space (rev (dropWhile is_space s)))"

fun split_comma :: "string \<Rightarrow> string list" where
  "split_comma [] = [[]]"
| "split_comma (c # cs) =
     (if c = CHR '','' then [] # split_comma cs
      else (case split_comma cs of [] \<Rightarrow> [[c]] | x # xs \<Rightarrow> (c # x) # xs))"

text \<open>\<open>x in s\<close> on strings: \<open>x\<close> occurs in \<open>s\<close> as a contiguous block.\<close>

fun str_in :: "string \<Rightarrow> string \<Rightarrow> bool" where
  "str_in x [] = (x = [])"
| "str_in x (c # cs) = (prefix x (c # cs) \<or> str_in x cs)"

text \<open>\<open>Path.name\<close> is the last component; \<open>Path.suffix\<close> is the part of the name from its
  last dot on, unless that dot is the first or the last character of the name.\<close>

definition name :: "path \<Rightarrow> string" where
  "name p = (if p = [] then [] else last p)"

definition suffix_of :: "path \<Rightarrow> string" where
  "suffix_of p =
     (let nm = name p; tl_len = length (takeWhile (\<lambda>c. c \<noteq> CHR ''.'') (rev nm)) in
      if CHR ''.'' \<notin> set nm then []
      else (let i = length nm - tl_len - 1 in
            if 0 < i \<and> i < length nm - 1 then drop i nm else []))"

section \<open>Helpers of the node\<close>

text \<open>\<open>_disk_usage_percent\<close>: \<open>shutil.disk_usage\<close> fails as \<open>stat\<close> does on its path, or with
  the fault of the filesystem.\<close>

definition disk_usage_percent :: "world \<Rightarrow> path \<Rightarrow> os_error + rat" where
  "disk_usage_percent w p =
     (case stat w p of
        Inl e \<Rightarrow> Inl e
      | Inr _ \<Rightarrow>
          (case probe_fault w of
             Some e \<Rightarrow> Inl e
           | None \<Rightarrow>
               (let used = disk_used w;
                    total = (if disk_total w \<noteq> 0 then disk_total w else 1)
                in Inr ((of_nat used / of_nat total) * 100))))"

definition collect_keep :: "world \<Rightarrow> string list \<Rightarrow> string list \<Rightarrow> path \<Rightarrow> bool" where
  "collect_keep w allowed excl f =
     (if \<not> is_file w f then False
      else if allowed \<noteq> [] \<and> lower (suffix_of f) \<notin> set allowed then False
      else if list_ex (\<lambda>x. str_in x (lower (name f))) excl then False
      else True)"

definition collect_lora_files :: "world \<Rightarrow> path \<Rightarrow> string list \<Rightarrow> string list \<Rightarrow> path list" where
  "collect_lora_files w loras allowed excl =
     (if \<not> exists w loras \<or> \<not> is_dir w loras then []
      else filter (collect_keep w allowed excl) (rglob w loras))"

definition mtime_safe :: "world \<Rightarrow> path \<Rightarrow> os_error + rat" where
  "mtime_safe w p =
     (case stat w p of
        Inr st \<Rightarrow> Inr (st_mtime st)
      | Inl e \<Rightarrow> if e = FileNotFoundError then Inr (clock w) else Inl e)"

text \<open>\<open>_folder_size\<close>: the sizes of the regular files below a path. A path that passes
  \<open>is_file\<close> has a \<open>stat\<close> in the same world, so the handler of the source for a file
  that is missing by then is never entered here.\<close>

definition folder_size :: "world \<Rightarrow> path \<Rightarrow> nat" where
  "folder_size w p =
     (if \<not> exists w p then 0
      else sum_list (map (\<lambda>f. case stat w f of Inr st \<Rightarrow> st_size st | Inl _ \<Rightarrow> 0)
                         (filter (is_file w) (rglob w p))))"

section \<open>The log\<close>

text \<open>
  The source builds its log from formatted strings. A line is kept here as the kind of
  message with the values it is formatted from, so that what was logged about which file
  can be read back; \<open>_format_bytes\<close> only renders a byte count and is not modelled.
\<close>

datatype log_line =
    UsageOK rat rat
  | Purging rat rat path
  | TargetAfter rat
  | AllowedSuffixes "string list"
  | ExcludedNames "string list"
  | Policy int int bool
  | Blank
  | DeletionsHeading
  | StopLimit int
  | DryRunLine path nat
  | DeletedLine path nat
  | SkipPermission path
  | SkipDirectory path
  | SkipOther path os_error
  | ReachedTarget rat rat
  | FreedTotal nat nat
  | UsageBeforeAfter rat rat
  | WarnMissing path
  | CurrentUsage rat
  | TrashNotFound path
  | TrashCleared path nat

text \<open>The files a log reports as deleted, really or in a dry run, in the order logged.\<close>

fun deleted_paths :: "log_line list \<Rightarrow> path list" where
  "deleted_paths [] = []"
| "deleted_paths (DryRunLine f n # ls) = f # deleted_paths ls"
| "deleted_paths (DeletedLine f n # ls) = f # deleted_paths ls"
| "deleted_paths (l # ls) = deleted_paths ls"

section \<open>The eviction engine\<close>

text \<open>\<open>files.sort(key=_mtime_safe)\<close>: the keys are computed first, one call per file in list
  order, and an exception of the key function leaves the sort; the sort itself is stable.\<close>

fun sort_keys :: "world \<Rightarrow> path list \<Rightarrow> os_error + (rat \<times> path) list" where
  "sort_keys w [] = Inr []"
| "sort_keys w (f # fs) =
     (case mtime_safe w f of
        Inl e \<Rightarrow> Inl e
      | Inr k \<Rightarrow> (case sort_keys w fs of Inl e \<Rightarrow> Inl e | Inr ks \<Rightarrow> Inr ((k, f) # ks)))"

definition sort_files :: "world \<Rightarrow> path list \<Rightarrow> os_error + path list" where
  "sort_files w fs =
     (case sort_keys w fs of Inl e \<Rightarrow> Inl e | Inr ks \<Rightarrow> Inr (map snd (sort_key fst ks)))"

record purge_args =
  root_for_usage :: path
  loras_dir :: path
  threshold_percent :: rat
  target_percent :: rat
  allowed_suffixes :: "string list"
  exclude_names :: "string list"
  min_age_seconds :: int
  delete_count_limit :: int
  dry_run :: bool

text \<open>The local variables of the loop, with the world the loop has reached.\<close>

record loop_state =
  l_world :: world
  l_bytes_freed :: nat
  l_files_deleted :: nat
  l_lines :: "log_line list"

text \<open>
  How one pass through the body of the loop ends: with \<open>continue\<close> (or by reaching the end
  of the body), with \<open>break\<close>, or with an exception that leaves the loop and the function.
  Each carries the local variables and the world as the pass left them, so what a raising
  call has already done to the filesystem is not lost.
\<close>

datatype flow = Continue loop_state | Break loop_state | Raise os_error loop_state

fun flow_state :: "flow \<Rightarrow> loop_state" where
  "flow_state (Continue s) = s"
| "flow_state (Break s) = s"
| "flow_state (Raise e s) = s"

text \<open>The log line of a failed deletion: the handlers of \<open>f.unlink\<close> in their order
  (source lines 146 to 151).\<close>

definition skip_line :: "path \<Rightarrow> os_error \<Rightarrow> log_line" where
  "skip_line f e =
     (if e = PermissionError then SkipPermission f
      else if e = IsADirectoryError then SkipDirectory f
      else SkipOther f e)"

text \<open>The deletion attempt of one candidate (source lines 136 to 151).\<close>

definition attempt :: "purge_args \<Rightarrow> path \<Rightarrow> nat \<Rightarrow> loop_state \<Rightarrow> loop_state" where
  "attempt a f sz s =
     (if dry_run a
      then s\<lparr>l_files_deleted := l_files_deleted s + 1,
             l_bytes_freed := l_bytes_freed s + sz,
             l_lines := l_lines s @ [DryRunLine f sz]\<rparr>
      else (case unlink (l_world s) f of
              Inr w' \<Rightarrow>
                s\<lparr>l_world := w',
                  l_files_deleted := l_files_deleted s + 1,
                  l_bytes_freed := l_bytes_freed s + sz,
                  l_lines := l_lines s @ [DeletedLine f sz]\<rparr>
            | Inl e \<Rightarrow> s\<lparr>l_lines := l_lines s @ [skip_line f e]\<rparr>))"

text \<open>The two guards of the loop: the cap on deletions (source line 121), where a cap of 0
  is no cap, and the protection of fresh files (source line 130).\<close>

definition limit_reached :: "purge_args \<Rightarrow> loop_state \<Rightarrow> bool" where
  "limit_reached a s \<longleftrightarrow>
     delete_count_limit a \<noteq> 0 \<and> int (l_files_deleted s) \<ge> delete_count_limit a"

definition too_fresh :: "purge_args \<Rightarrow> rat \<Rightarrow> entry \<Rightarrow> bool" where
  "too_fresh a now st \<longleftrightarrow>
     min_age_seconds a > 0 \<and> now - st_mtime st < of_int (min_age_seconds a)"

text \<open>One pass through the body of the loop (source lines 121 to 157).\<close>

definition purge_step :: "purge_args \<Rightarrow> rat \<Rightarrow> path \<Rightarrow> loop_state \<Rightarrow> flow" where
  "purge_step a now f s =
     (if limit_reached a s
      then Break (s\<lparr>l_lines := l_lines s @ [StopLimit (delete_count_limit a)]\<rparr>)
      else (case stat (l_world s) f of
              Inl e \<Rightarrow> if e = FileNotFoundError then Continue s else Raise e s
            | Inr st \<Rightarrow>
                if too_fresh a now st
                then Continue s
                else (let s' = attempt a f (st_size st) s in
                      case disk_usage_percent (l_world s') (root_for_usage a) of
                        Inl e \<Rightarrow> Raise e s'
                      | Inr after_now \<Rightarrow>
                          if after_now < target_percent a
                          then Break (s'\<lparr>l_lines := l_lines s' @
                                     [ReachedTarget after_now (target_percent a)]\<rparr>)
                          else Continue s')))"

text \<open>The loop over the sorted candidates: the exception that left it, if any, and the
  local variables at its end.\<close>

fun purge_loop :: "purge_args \<Rightarrow> rat \<Rightarrow> path list \<Rightarrow> loop_state \<Rightarrow> os_error option \<times> loop_state" where
  "purge_loop a now [] s = (None, s)"
| "purge_loop a now (f # fs) s =
     (case purge_step a now f s of
        Raise e s' \<Rightarrow> (Some e, s')
      | Break s' \<Rightarrow> (None, s')
      | Continue s' \<Rightarrow> purge_loop a now fs s')"

record purge_result =
  triggered :: bool
  before_used_pct :: rat
  after_used_pct :: rat
  files_deleted :: nat
  bytes_freed :: nat
  log :: "log_line list"

definition header_lines :: "purge_args \<Rightarrow> rat \<Rightarrow> log_line list" where
  "header_lines a before_pct =
     [Purging before_pct (threshold_percent a) (loras_dir a),
      TargetAfter (target_percent a),
      AllowedSuffixes (allowed_suffixes a),
      ExcludedNames (exclude_names a),
      Policy (min_age_seconds a) (delete_count_limit a) (dry_run a),
      Blank,
      DeletionsHeading]"

text \<open>The local variables before the loop (source lines 107 to 117) and the summary
  returned after it (source lines 160 to 173).\<close>

definition init_state :: "purge_args \<Rightarrow> world \<Rightarrow> rat \<Rightarrow> loop_state" where
  "init_state a w before_pct =
     \<lparr>l_world = w, l_bytes_freed = 0, l_files_deleted = 0,
      l_lines = header_lines a before_pct\<rparr>"

definition summary :: "rat \<Rightarrow> rat \<Rightarrow> loop_state \<Rightarrow> purge_result" where
  "summary before_pct after_pct s =
     \<lparr>triggered = True, before_used_pct = before_pct, after_used_pct = after_pct,
      files_deleted = l_files_deleted s, bytes_freed = l_bytes_freed s,
      log = [FreedTotal (l_bytes_freed s) (l_files_deleted s),
             UsageBeforeAfter before_pct after_pct, Blank] @ l_lines s\<rparr>"

text \<open>\<open>_purge_oldest_until_below\<close>: the summary it returns or the exception it raises, and
  the world it leaves.\<close>

definition purge_oldest_until_below :: "world \<Rightarrow> purge_args \<Rightarrow> (os_error + purge_result) \<times> world" where
  "purge_oldest_until_below w a =
     (case disk_usage_percent w (root_for_usage a) of
        Inl e \<Rightarrow> (Inl e, w)
      | Inr before_pct \<Rightarrow>
          if before_pct < threshold_percent a
          then (Inr \<lparr>triggered = False, before_used_pct = before_pct,
                     after_used_pct = before_pct,
                     files_deleted = 0, bytes_freed = 0,
                     log = [UsageOK before_pct (threshold_percent a)]\<rparr>, w)
          else (case sort_files w (collect_lora_files w (loras_dir a) (allowed_suffixes a) (exclude_names a)) of
                  Inl e \<Rightarrow> (Inl e, w)
                | Inr files \<Rightarrow>
                    (case purge_loop a (clock w) files (init_state a w before_pct) of
                       (Some e, s) \<Rightarrow> (Inl e, l_world s)
                     | (None, s) \<Rightarrow>
                         (case disk_usage_percent (l_world s) (root_for_usage a) of
                            Inl e \<Rightarrow> (Inl e, l_world s)
                          | Inr after_pct \<Rightarrow> (Inr (summary before_pct after_pct s), l_world s)))))"

section \<open>The reclaim sweep and the node\<close>

definition trash_path :: "world \<Rightarrow> path" where
  "trash_path w = home w @ [''.local'', ''share'', ''Trash'', ''files'']"

text \<open>\<open>rmtree\<close> with \<open>ignore_errors=True\<close> raises nothing, so the handler of the source that
  reports a failed sweep is never entered.\<close>

definition clear_user_trash :: "world \<Rightarrow> log_line \<times> world" where
  "clear_user_trash w =
     (if \<not> exists w (trash_path w) then (TrashNotFound (trash_path w), w)
      else (let freed = folder_size w (trash_path w)
            in (TrashCleared (trash_path w) freed, rmtree w (trash_path w))))"

definition csv_list :: "string \<Rightarrow> string list" where
  "csv_list s = map strip (filter (\<lambda>x. strip x \<noteq> []) (split_comma s))"

definition norm_suffix :: "string \<Rightarrow> string" where
  "norm_suffix x = (if prefix ''.'' x then lower x else ''.'' @ lower x)"

record run_result =
  r_log :: "log_line list"
  used_before_pct :: rat
  used_after_pct :: rat
  r_files_deleted :: nat
  r_bytes_freed :: nat

text \<open>The correction of a target that is not below the threshold (source lines 288, 289).\<close>

definition hysteresis :: "rat \<Rightarrow> rat \<Rightarrow> rat" where
  "hysteresis threshold target = (if target \<ge> threshold then threshold - 1 else target)"

text \<open>
  \<open>PurgeLoRAsWhenDiskFull.run\<close>: the tuple it returns or the exception it raises, and the
  world it leaves. The first argument of the model is the path that
  \<open>Path(loras_path).expanduser().resolve()\<close> gives; the other arguments are those of the
  source, in its order. \<open>run_args\<close> is what the source passes to the engine (lines 275 to 302).
\<close>

definition run_args ::
  "path \<Rightarrow> rat \<Rightarrow> rat \<Rightarrow> string \<Rightarrow> string \<Rightarrow> int \<Rightarrow> int \<Rightarrow> bool \<Rightarrow> purge_args" where
  "run_args loras threshold target allowed_csv exclude_csv min_age_minutes limit dry =
     \<lparr>root_for_usage = loras, loras_dir = loras,
      threshold_percent = threshold,
      target_percent = hysteresis threshold target,
      allowed_suffixes = map norm_suffix (csv_list allowed_csv),
      exclude_names = map lower (csv_list exclude_csv),
      min_age_seconds = min_age_minutes * 60,
      delete_count_limit = limit,
      dry_run = dry\<rparr>"

definition run ::
  "world \<Rightarrow> path \<Rightarrow> rat \<Rightarrow> rat \<Rightarrow> string \<Rightarrow> string \<Rightarrow> int \<Rightarrow> int \<Rightarrow> bool
     \<Rightarrow> (os_error + run_result) \<times> world" where
  "run w loras threshold target allowed_csv exclude_csv min_age_minutes limit dry =
     (if \<not> exists w loras
      then (case disk_usage_percent w (cwd w) of
              Inl e \<Rightarrow> (Inl e, w)
            | Inr used \<Rightarrow>
                (Inr \<lparr>r_log = [WarnMissing loras, CurrentUsage used],
                      used_before_pct = used, used_after_pct = used,
                      r_files_deleted = 0, r_bytes_freed = 0\<rparr>, w))
      else (case purge_oldest_until_below w
                   (run_args loras threshold target allowed_csv exclude_csv
                      min_age_minutes limit dry) of
              (Inl e, w1) \<Rightarrow> (Inl e, w1)
            | (Inr res, w1) \<Rightarrow>
                (let (trash_log, w2) = clear_user_trash w1
                 in (Inr \<lparr>r_log = log res @ [Blank, trash_log],
                          used_before_pct = before_used_pct res,
                          used_after_pct = after_used_pct res,
                          r_files_deleted = files_deleted res,
                          r_bytes_freed = bytes_freed res\<rparr>, w2))))"

text \<open>The key the sort uses for a path whose \<open>stat\<close> does not raise: its modification
  time, or the current time when the path is missing.\<close>

definition effective_mtime :: "world \<Rightarrow> path \<Rightarrow> rat" where
  "effective_mtime w p = (case mtime_safe w p of Inr t \<Rightarrow> t | Inl _ \<Rightarrow> clock w)"

section \<open>What oldest first is expected to mean\<close>

text \<open>
  The reading of the order of deletions that the engine is compared with. A candidate is
  taken when it exists and is not too fresh and, in a live run, its removal does not
  raise. Going through the sorted candidates from the oldest, the engine is expected to
  report as deleted exactly the candidates to take among those it has reached.
\<close>

definition eligible :: "purge_args \<Rightarrow> rat \<Rightarrow> world \<Rightarrow> path \<Rightarrow> bool" where
  "eligible a now w f = (case stat w f of Inl _ \<Rightarrow> False | Inr st \<Rightarrow> \<not> too_fresh a now st)"

definition removable :: "world \<Rightarrow> path \<Rightarrow> bool" where
  "removable w f = (case unlink w f of Inl _ \<Rightarrow> False | Inr _ \<Rightarrow> True)"

definition to_take :: "purge_args \<Rightarrow> rat \<Rightarrow> world \<Rightarrow> path \<Rightarrow> bool" where
  "to_take a now w f \<longleftrightarrow> eligible a now w f \<and> (dry_run a \<or> removable w f)"

text \<open>\<open>stat\<close> raises nothing but \<open>FileNotFoundError\<close>: on one path, and on every path of
  the world.\<close>

definition readable :: "world \<Rightarrow> path \<Rightarrow> bool" where
  "readable w p \<longleftrightarrow> (\<forall>e. stat w p = Inl e \<longrightarrow> e = FileNotFoundError)"

definition no_stat_faults :: "world \<Rightarrow> bool" where
  "no_stat_faults w = list_all (\<lambda>qe. stat_fault (snd qe) = None) (entries w)"

section \<open>A small filesystem to run the node on\<close>

text \<open>
  A model directory \<open>m\<close> with two weight files (5 bytes, modified at time 10, and 3 bytes,
  modified at time 50) and a protected one, and a home directory \<open>h\<close> whose trash holds one
  file of 7 bytes. The disk has 100 bytes, 78 of them used by other things, so 96 percent
  are used. The clock reads 100.
\<close>

definition ex_dir :: entry where
  "ex_dir = \<lparr>kind = Directory, st_size = 0, st_mtime = 0, stat_fault = None, remove_fault = None\<rparr>"

definition ex_file :: "nat \<Rightarrow> rat \<Rightarrow> entry" where
  "ex_file n t = \<lparr>kind = Regular, st_size = n, st_mtime = t, stat_fault = None, remove_fault = None\<rparr>"

definition ex_world :: world where
  "ex_world =
     \<lparr>entries =
        [([''m''], ex_dir),
         ([''m'', ''b.pt''], ex_file 3 50),
         ([''m'', ''a.pt''], ex_file 5 10),
         ([''m'', ''keep.pt''], ex_file 3 1),
         ([''h''], ex_dir),
         ([''h'', ''.local''], ex_dir),
         ([''h'', ''.local'', ''share''], ex_dir),
         ([''h'', ''.local'', ''share'', ''Trash''], ex_dir),
         ([''h'', ''.local'', ''share'', ''Trash'', ''files''], ex_dir),
         ([''h'', ''.local'', ''share'', ''Trash'', ''files'', ''x''], ex_file 7 3)],
      disk_total = 100, disk_other = 78, probe_fault = None, clock = 100,
      home = [''h''], cwd = [''h'']\<rparr>"

text \<open>The arguments of an engine call on that filesystem: threshold 90, target 85.\<close>

definition ex_args :: "int \<Rightarrow> int \<Rightarrow> bool \<Rightarrow> purge_args" where
  "ex_args min_age limit dry =
     \<lparr>root_for_usage = [''m''], loras_dir = [''m''],
      threshold_percent = 90, target_percent = 85,
      allowed_suffixes = [''.pt''], exclude_names = [''keep''],
      min_age_seconds = min_age, delete_count_limit = limit, dry_run = dry\<rparr>"

text \<open>The older weight file of that filesystem, with another entry in its place.\<close>

definition ex_with :: "entry \<Rightarrow> world" where
  "ex_with e =
     ex_world\<lparr>entries :=
       map (\<lambda>(p, e'). if p = [''m'', ''a.pt''] then (p, e) else (p, e')) (entries ex_world)\<rparr>"

text \<open>The older weight file in a directory that cannot be written: removing the file
  raises \<open>PermissionError\<close>.\<close>

definition ex_locked :: world where
  "ex_locked = ex_with ((ex_file 5 10)\<lparr>remove_fault := Some PermissionError\<rparr>)"

text \<open>The older weight file removed by another process after the node has looked at it.\<close>

definition ex_raced :: world where
  "ex_raced = ex_with ((ex_file 5 10)\<lparr>remove_fault := Some FileNotFoundError\<rparr>)"

text \<open>The older weight file in a directory that may not be searched: \<open>stat\<close> raises
  \<open>PermissionError\<close> on it.\<close>

definition ex_denied :: world where
  "ex_denied = ex_with ((ex_file 5 10)\<lparr>stat_fault := Some PermissionError\<rparr>)"

text \<open>The older weight file with the modification time of the other one.\<close>

definition ex_twins :: world where
  "ex_twins = ex_with (ex_file 5 50)"

text \<open>The filesystem when its capacity cannot be read.\<close>

definition ex_unprobed :: world where
  "ex_unprobed = ex_world\<lparr>probe_fault := Some OtherOSError\<rparr>"

section \<open>Facts about the filesystem operations\<close>

lemmas ex_defs = ex_world_def ex_dir_def ex_file_def ex_args_def ex_with_def ex_locked_def
  ex_raced_def ex_denied_def ex_twins_def ex_unprobed_def
lemmas fs_defs = stat_def exists_def is_dir_def is_file_def rglob_def unlink_def stuck_def
  rmtree_def disk_used_def disk_usage_percent_def
lemmas str_defs = lower_char_def lower_def is_space_def strip_def name_def suffix_of_def
  csv_list_def norm_suffix_def
lemmas eng_defs = collect_keep_def collect_lora_files_def mtime_safe_def folder_size_def
  sort_files_def skip_line_def attempt_def limit_reached_def too_fresh_def purge_step_def
  header_lines_def init_state_def summary_def
  purge_oldest_until_below_def trash_path_def clear_user_trash_def hysteresis_def
  run_args_def run_def effective_mtime_def eligible_def removable_def to_take_def
  no_stat_faults_def readable_def

lemma stat_cases:
  obtains (gone) "stat w p = Inl FileNotFoundError"
  | (raised) e where "stat w p = Inl e" "e \<noteq> FileNotFoundError"
  | (found) st where "stat w p = Inr st"
  by (cases "stat w p") auto

lemma stat_no_faults:
  assumes "no_stat_faults w" and "stat w p = Inl e"
  shows "e = FileNotFoundError"
proof (cases "map_of (entries w) p")
  case None
  with assms(2) show ?thesis by (simp add: stat_def)
next
  case (Some x)
  then have "(p, x) \<in> set (entries w)" by (rule map_of_SomeD)
  with assms(1) have "stat_fault x = None"
    by (auto simp: no_stat_faults_def list_all_iff)
  with Some assms(2) show ?thesis by (simp add: stat_def)
qed

lemma str_in_sublist: "str_in x s = sublist x s"
  by (induction s) (simp_all add: sublist_Cons_right)

lemma is_file_in_entries: "is_file w p \<Longrightarrow> p \<in> fst ` set (entries w)"
  by (auto simp: is_file_def stat_def split: option.splits dest: map_of_SomeD intro: rev_image_eqI)

lemma map_of_filter_other:
  "p \<noteq> f \<Longrightarrow> map_of (filter (\<lambda>qe. fst qe \<noteq> f) es) p = map_of es p"
  by (induction es) auto

lemma map_of_filter_self: "map_of (filter (\<lambda>qe. fst qe \<noteq> f) es) f = None"
  by (induction es) auto

lemma unlink_stat_other: "unlink w f = Inr w' \<Longrightarrow> p \<noteq> f \<Longrightarrow> stat w' p = stat w p"
  by (auto simp: unlink_def stat_def map_of_filter_other split: option.splits if_splits)

lemma unlink_stat_self:
  "unlink w f = Inr w' \<Longrightarrow> stat w' f = Inl FileNotFoundError"
  by (auto simp: unlink_def stat_def map_of_filter_self split: option.splits if_splits)

lemma unlink_frame:
  "unlink w f = Inr w' \<Longrightarrow>
     clock w' = clock w \<and> home w' = home w \<and> cwd w' = cwd w \<and>
     disk_total w' = disk_total w \<and> disk_other w' = disk_other w \<and>
     probe_fault w' = probe_fault w"
  by (auto simp: unlink_def split: option.splits if_splits)

lemma unlink_no_faults: "unlink w f = Inr w' \<Longrightarrow> no_stat_faults w \<Longrightarrow> no_stat_faults w'"
  by (auto simp: unlink_def no_stat_faults_def list_all_iff split: option.splits if_splits)

lemma unlink_not_missing: "unlink w f \<noteq> Inl FileNotFoundError"
  by (auto simp: unlink_def split: option.splits if_splits)

section \<open>Facts about one pass through the loop\<close>

lemma deleted_paths_append [simp]:
  "deleted_paths (xs @ ys) = deleted_paths xs @ deleted_paths ys"
  by (induction xs rule: deleted_paths.induct) simp_all

lemma deleted_paths_skip [simp]: "deleted_paths (skip_line f e # ls) = deleted_paths ls"
  by (simp add: skip_line_def)

text \<open>What a deletion attempt can do to the local variables.\<close>

lemma attempt_cases:
  obtains (dry) "dry_run a"
      "attempt a f sz s = s\<lparr>l_files_deleted := l_files_deleted s + 1,
          l_bytes_freed := l_bytes_freed s + sz, l_lines := l_lines s @ [DryRunLine f sz]\<rparr>"
  | (deleted) w' where "\<not> dry_run a" "unlink (l_world s) f = Inr w'"
      "attempt a f sz s = s\<lparr>l_world := w', l_files_deleted := l_files_deleted s + 1,
          l_bytes_freed := l_bytes_freed s + sz, l_lines := l_lines s @ [DeletedLine f sz]\<rparr>"
  | (failed) e where "\<not> dry_run a" "unlink (l_world s) f = Inl e"
      "attempt a f sz s = s\<lparr>l_lines := l_lines s @ [skip_line f e]\<rparr>"
  by (cases "dry_run a"; cases "unlink (l_world s) f") (auto simp: attempt_def)

text \<open>The ways through the body of the loop.\<close>

lemma purge_step_cases:
  obtains (limit) "limit_reached a s"
      "purge_step a now f s = Break (s\<lparr>l_lines := l_lines s @ [StopLimit (delete_count_limit a)]\<rparr>)"
  | (gone) "\<not> limit_reached a s" "stat (l_world s) f = Inl FileNotFoundError"
      "purge_step a now f s = Continue s"
  | (stat_raised) e where "\<not> limit_reached a s" "stat (l_world s) f = Inl e"
      "e \<noteq> FileNotFoundError" "purge_step a now f s = Raise e s"
  | (fresh) st where "\<not> limit_reached a s" "stat (l_world s) f = Inr st" "too_fresh a now st"
      "purge_step a now f s = Continue s"
  | (tried) st where "\<not> limit_reached a s" "stat (l_world s) f = Inr st" "\<not> too_fresh a now st"
      "purge_step a now f s =
         (case disk_usage_percent (l_world (attempt a f (st_size st) s)) (root_for_usage a) of
            Inl e \<Rightarrow> Raise e (attempt a f (st_size st) s)
          | Inr after_now \<Rightarrow>
              if after_now < target_percent a
              then Break ((attempt a f (st_size st) s)\<lparr>l_lines := l_lines (attempt a f (st_size st) s) @
                            [ReachedTarget after_now (target_percent a)]\<rparr>)
              else Continue (attempt a f (st_size st) s))"
proof (cases "limit_reached a s")
  case True
  then have "purge_step a now f s = Break (s\<lparr>l_lines := l_lines s @ [StopLimit (delete_count_limit a)]\<rparr>)"
    by (simp add: purge_step_def)
  with True show ?thesis by (rule limit)
next
  case nl: False
  show ?thesis
  proof (cases rule: stat_cases [where w="l_world s" and p=f])
    case g: gone
    with nl have "purge_step a now f s = Continue s"
      by (simp add: purge_step_def)
    with nl g show ?thesis by (rule gone)
  next
    case r: (raised e)
    with nl have "purge_step a now f s = Raise e s"
      by (simp add: purge_step_def)
    with nl r show ?thesis by (rule stat_raised)
  next
    case st: (found st)
    show ?thesis
    proof (cases "too_fresh a now st")
      case True
      with nl st have "purge_step a now f s = Continue s"
        by (simp add: purge_step_def)
      with nl st True show ?thesis by (rule fresh)
    next
      case False
      with nl st have "purge_step a now f s =
         (case disk_usage_percent (l_world (attempt a f (st_size st) s)) (root_for_usage a) of
            Inl e \<Rightarrow> Raise e (attempt a f (st_size st) s)
          | Inr after_now \<Rightarrow>
              if after_now < target_percent a
              then Break ((attempt a f (st_size st) s)\<lparr>l_lines := l_lines (attempt a f (st_size st) s) @
                            [ReachedTarget after_now (target_percent a)]\<rparr>)
              else Continue (attempt a f (st_size st) s))"
        by (simp add: purge_step_def Let_def)
      with nl st False show ?thesis by (rule tried)
    qed
  qed
qed

text \<open>The state a pass leaves is the state it found, possibly after one deletion attempt
  on a file that was there and old enough, possibly with one more line of log.\<close>

lemma purge_step_state:
  "(\<exists>ls. flow_state (purge_step a now f s) = s\<lparr>l_lines := l_lines s @ ls\<rparr> \<and> deleted_paths ls = []) \<or>
   (\<exists>st ls. \<not> limit_reached a s \<and> stat (l_world s) f = Inr st \<and> \<not> too_fresh a now st \<and>
       flow_state (purge_step a now f s) =
         (attempt a f (st_size st) s)\<lparr>l_lines := l_lines (attempt a f (st_size st) s) @ ls\<rparr> \<and>
       deleted_paths ls = [])"
proof (cases rule: purge_step_cases [where a=a and s=s and now=now and f=f])
  case limit
  then have "flow_state (purge_step a now f s) = s\<lparr>l_lines := l_lines s @ [StopLimit (delete_count_limit a)]\<rparr>
      \<and> deleted_paths [StopLimit (delete_count_limit a)] = []"
    by simp
  then show ?thesis by blast
next
  case gone
  then have "flow_state (purge_step a now f s) = s\<lparr>l_lines := l_lines s @ []\<rparr> \<and> deleted_paths [] = []"
    by simp
  then show ?thesis by blast
next
  case (stat_raised e)
  then have "flow_state (purge_step a now f s) = s\<lparr>l_lines := l_lines s @ []\<rparr> \<and> deleted_paths [] = []"
    by simp
  then show ?thesis by blast
next
  case (fresh st)
  then have "flow_state (purge_step a now f s) = s\<lparr>l_lines := l_lines s @ []\<rparr> \<and> deleted_paths [] = []"
    by simp
  then show ?thesis by blast
next
  case (tried st)
  let ?s = "attempt a f (st_size st) s"
  have "\<exists>ls. flow_state (purge_step a now f s) = ?s\<lparr>l_lines := l_lines ?s @ ls\<rparr> \<and> deleted_paths ls = []"
  proof (cases "disk_usage_percent (l_world ?s) (root_for_usage a)")
    case (Inl e)
    with tried have "flow_state (purge_step a now f s) = ?s\<lparr>l_lines := l_lines ?s @ []\<rparr> \<and> deleted_paths [] = []"
      by simp
    then show ?thesis by blast
  next
    case (Inr pct)
    show ?thesis
    proof (cases "pct < target_percent a")
      case True
      with Inr tried have "flow_state (purge_step a now f s) =
          ?s\<lparr>l_lines := l_lines ?s @ [ReachedTarget pct (target_percent a)]\<rparr>
          \<and> deleted_paths [ReachedTarget pct (target_percent a)] = []"
        by simp
      then show ?thesis by blast
    next
      case False
      with Inr tried have "flow_state (purge_step a now f s) = ?s\<lparr>l_lines := l_lines ?s @ []\<rparr> \<and> deleted_paths [] = []"
        by simp
      then show ?thesis by blast
    qed
  qed
  with tried show ?thesis by blast
qed

text \<open>An invariant of the passes is an invariant of the loop, however the loop ends.\<close>

lemma purge_loop_invariant:
  assumes "I s"
    and "\<And>f s. f \<in> set fs \<Longrightarrow> I s \<Longrightarrow> I (flow_state (purge_step a now f s))"
  shows "I (snd (purge_loop a now fs s))"
  using assms
proof (induction fs arbitrary: s)
  case Nil
  then show ?case by simp
next
  case (Cons f fs)
  have step: "I (flow_state (purge_step a now f s))"
    using Cons.prems by simp
  show ?case
  proof (cases "purge_step a now f s")
    case (Continue s')
    with step have "I s'" by simp
    then have "I (snd (purge_loop a now fs s'))"
      using Cons.IH Cons.prems(2) by simp
    with Continue show ?thesis by simp
  next
    case (Break s')
    with step show ?thesis by simp
  next
    case (Raise e s')
    with step show ?thesis by simp
  qed
qed

text \<open>What one pass does to the counters, to the files the log reports as deleted and to
  the world: nothing, or it counts the candidate, which was there, was old enough and came
  before the cap was reached, and which a live run has then unlinked.\<close>

lemma purge_step_effect:
  fixes a now f s
  defines "s' \<equiv> flow_state (purge_step a now f s)"
  shows "\<exists>ds. (ds = [] \<or> ds = [f] \<and> \<not> limit_reached a s \<and>
               (\<exists>st. stat (l_world s) f = Inr st \<and> \<not> too_fresh a now st \<and>
                     l_bytes_freed s' = l_bytes_freed s + st_size st)) \<and>
          (ds = [] \<longrightarrow> l_bytes_freed s' = l_bytes_freed s) \<and>
          deleted_paths (l_lines s') = deleted_paths (l_lines s) @ ds \<and>
          l_files_deleted s' = l_files_deleted s + length ds \<and>
          (l_world s' = l_world s \<or>
             ds = [f] \<and> \<not> dry_run a \<and> unlink (l_world s) f = Inr (l_world s')) \<and>
          (dry_run a \<longrightarrow> l_world s' = l_world s)"
proof -
  from purge_step_state [where a=a and now=now and f=f and s=s]
  consider (same) ls where "s' = s\<lparr>l_lines := l_lines s @ ls\<rparr>" "deleted_paths ls = []"
    | (tried) st ls where "\<not> limit_reached a s" "stat (l_world s) f = Inr st" "\<not> too_fresh a now st"
        "s' = (attempt a f (st_size st) s)\<lparr>l_lines := l_lines (attempt a f (st_size st) s) @ ls\<rparr>"
        "deleted_paths ls = []"
    unfolding s'_def by blast
  then show ?thesis
  proof cases
    case same
    then show ?thesis by (intro exI [of _ "[]"]) simp
  next
    case tried
    show ?thesis
    proof (cases rule: attempt_cases [where a=a and f=f and sz="st_size st" and s=s])
      case dry
      with tried show ?thesis by (intro exI [of _ "[f]"]) simp
    next
      case (deleted w')
      with tried show ?thesis by (intro exI [of _ "[f]"]) simp
    next
      case (failed e)
      with tried show ?thesis by (intro exI [of _ "[]"]) simp
    qed
  qed
qed

text \<open>The counter of deleted files never passes a positive cap.\<close>

lemma purge_loop_limit:
  assumes "0 < delete_count_limit a" and "int (l_files_deleted s) \<le> delete_count_limit a"
  shows "int (l_files_deleted (snd (purge_loop a now fs s))) \<le> delete_count_limit a"
proof (rule purge_loop_invariant [where I = "\<lambda>s. int (l_files_deleted s) \<le> delete_count_limit a"])
  show "int (l_files_deleted s) \<le> delete_count_limit a" by fact
next
  fix f and s :: loop_state
  assume inv: "int (l_files_deleted s) \<le> delete_count_limit a"
  from purge_step_effect [where a=a and now=now and f=f and s=s] obtain ds where
    ds: "ds = [] \<or> ds = [f] \<and> \<not> limit_reached a s"
    and n: "l_files_deleted (flow_state (purge_step a now f s)) = l_files_deleted s + length ds"
    by blast
  from ds show "int (l_files_deleted (flow_state (purge_step a now f s))) \<le> delete_count_limit a"
  proof
    assume "ds = []"
    with n inv show ?thesis by simp
  next
    assume "ds = [f] \<and> \<not> limit_reached a s"
    with n assms(1) show ?thesis by (auto simp: limit_reached_def)
  qed
qed

text \<open>The counter is the number of files the log reports as deleted.\<close>

lemma purge_loop_count:
  assumes "length (deleted_paths (l_lines s)) = l_files_deleted s"
  shows "length (deleted_paths (l_lines (snd (purge_loop a now fs s)))) =
         l_files_deleted (snd (purge_loop a now fs s))"
proof (rule purge_loop_invariant [where I = "\<lambda>s. length (deleted_paths (l_lines s)) = l_files_deleted s"])
  show "length (deleted_paths (l_lines s)) = l_files_deleted s" by fact
next
  fix f and s :: loop_state
  assume "length (deleted_paths (l_lines s)) = l_files_deleted s"
  with purge_step_effect [where a=a and now=now and f=f and s=s]
  show "length (deleted_paths (l_lines (flow_state (purge_step a now f s)))) =
        l_files_deleted (flow_state (purge_step a now f s))"
    by auto
qed

text \<open>A file that is too fresh stays where it is and is not reported as deleted.\<close>

lemma purge_loop_fresh:
  assumes "stat (l_world s) p = Inr e" and "too_fresh a now e"
    and "p \<notin> set (deleted_paths (l_lines s))"
  shows "stat (l_world (snd (purge_loop a now fs s))) p = Inr e \<and>
         p \<notin> set (deleted_paths (l_lines (snd (purge_loop a now fs s))))"
proof (rule purge_loop_invariant
    [where I = "\<lambda>s. stat (l_world s) p = Inr e \<and> p \<notin> set (deleted_paths (l_lines s))"])
  show "stat (l_world s) p = Inr e \<and> p \<notin> set (deleted_paths (l_lines s))"
    using assms by simp
next
  fix f and s :: loop_state
  let ?s = "flow_state (purge_step a now f s)"
  assume inv: "stat (l_world s) p = Inr e \<and> p \<notin> set (deleted_paths (l_lines s))"
  from purge_step_effect [where a=a and now=now and f=f and s=s] obtain ds where
    ds: "ds = [] \<or> ds = [f] \<and> (\<exists>st. stat (l_world s) f = Inr st \<and> \<not> too_fresh a now st)"
    and dp: "deleted_paths (l_lines ?s) = deleted_paths (l_lines s) @ ds"
    and w: "l_world ?s = l_world s \<or> ds = [f] \<and> unlink (l_world s) f = Inr (l_world ?s)"
    by blast
  have ne: "ds = [f] \<Longrightarrow> f \<noteq> p"
    using ds inv assms(2) by auto
  have "stat (l_world ?s) p = Inr e"
    using w ne inv by (auto simp: unlink_stat_other)
  moreover have "p \<notin> set (deleted_paths (l_lines ?s))"
    using dp ds ne inv by auto
  ultimately show "stat (l_world ?s) p = Inr e \<and> p \<notin> set (deleted_paths (l_lines ?s))" ..
qed

text \<open>The loop only removes entries: what is there afterwards was there before, unchanged;
  and what the log reports as deleted was there before.\<close>

lemma unlink_stat_mono: "unlink w f = Inr w' \<Longrightarrow> stat w' p = Inr e \<Longrightarrow> stat w p = Inr e"
  by (cases "p = f") (simp_all add: unlink_stat_other unlink_stat_self)

lemma purge_loop_shrinks:
  assumes "\<forall>p e. stat (l_world s) p = Inr e \<longrightarrow> stat w0 p = Inr e"
    and "\<forall>p \<in> set (deleted_paths (l_lines s)). exists w0 p"
  shows "(\<forall>p e. stat (l_world (snd (purge_loop a now fs s))) p = Inr e \<longrightarrow> stat w0 p = Inr e) \<and>
         (\<forall>p \<in> set (deleted_paths (l_lines (snd (purge_loop a now fs s)))). exists w0 p)"
proof (rule purge_loop_invariant
    [where I = "\<lambda>s. (\<forall>p e. stat (l_world s) p = Inr e \<longrightarrow> stat w0 p = Inr e) \<and>
                     (\<forall>p \<in> set (deleted_paths (l_lines s)). exists w0 p)"])
  show "(\<forall>p e. stat (l_world s) p = Inr e \<longrightarrow> stat w0 p = Inr e) \<and>
        (\<forall>p \<in> set (deleted_paths (l_lines s)). exists w0 p)"
    using assms by simp
next
  fix f and s :: loop_state
  let ?s = "flow_state (purge_step a now f s)"
  assume inv: "(\<forall>p e. stat (l_world s) p = Inr e \<longrightarrow> stat w0 p = Inr e) \<and>
               (\<forall>p \<in> set (deleted_paths (l_lines s)). exists w0 p)"
  from purge_step_effect [where a=a and now=now and f=f and s=s] obtain ds where
    ds: "ds = [] \<or> ds = [f] \<and> (\<exists>st. stat (l_world s) f = Inr st)"
    and dp: "deleted_paths (l_lines ?s) = deleted_paths (l_lines s) @ ds"
    and w: "l_world ?s = l_world s \<or> unlink (l_world s) f = Inr (l_world ?s)"
    by blast
  have "\<forall>p e. stat (l_world ?s) p = Inr e \<longrightarrow> stat w0 p = Inr e"
    using w inv by (auto dest: unlink_stat_mono)
  moreover have "\<forall>p \<in> set (deleted_paths (l_lines ?s)). exists w0 p"
    using dp ds inv by (auto simp: exists_def)
  ultimately show "(\<forall>p e. stat (l_world ?s) p = Inr e \<longrightarrow> stat w0 p = Inr e) \<and>
                   (\<forall>p \<in> set (deleted_paths (l_lines ?s)). exists w0 p)" ..
qed

text \<open>The files reported as deleted are reported in the order of the candidate list.\<close>

lemma purge_loop_order:
  "\<exists>ds. subseq ds fs \<and>
        deleted_paths (l_lines (snd (purge_loop a now fs s))) = deleted_paths (l_lines s) @ ds"
proof (induction fs arbitrary: s)
  case Nil
  then show ?case by simp
next
  case (Cons f fs)
  let ?s = "flow_state (purge_step a now f s)"
  from purge_step_effect [where a=a and now=now and f=f and s=s] obtain d1 where
    d1: "d1 = [] \<or> d1 = [f]"
    and dp: "deleted_paths (l_lines ?s) = deleted_paths (l_lines s) @ d1"
    by blast
  show ?case
  proof (cases "purge_step a now f s")
    case (Continue s1)
    from Cons.IH [of s1] obtain d2 where
      d2: "subseq d2 fs"
      and dp2: "deleted_paths (l_lines (snd (purge_loop a now fs s1))) = deleted_paths (l_lines s1) @ d2"
      by blast
    have "subseq (d1 @ d2) (f # fs)"
      using d1 d2 by auto
    moreover have "deleted_paths (l_lines (snd (purge_loop a now (f # fs) s))) =
        deleted_paths (l_lines s) @ (d1 @ d2)"
      using Continue dp dp2 by simp
    ultimately show ?thesis by blast
  next
    case (Break s1)
    have "subseq d1 (f # fs)" using d1 by auto
    moreover have "deleted_paths (l_lines (snd (purge_loop a now (f # fs) s))) = deleted_paths (l_lines s) @ d1"
      using Break dp by simp
    ultimately show ?thesis by blast
  next
    case (Raise e s1)
    have "subseq d1 (f # fs)" using d1 by auto
    moreover have "deleted_paths (l_lines (snd (purge_loop a now (f # fs) s))) = deleted_paths (l_lines s) @ d1"
      using Raise dp by simp
    ultimately show ?thesis by blast
  qed
qed

text \<open>A dry run leaves the world alone.\<close>

lemma purge_loop_dry:
  assumes "dry_run a"
  shows "l_world (snd (purge_loop a now fs s)) = l_world s"
proof (rule purge_loop_invariant [where I = "\<lambda>s'. l_world s' = l_world s"])
  show "l_world s = l_world s" ..
next
  fix f and s' :: loop_state
  assume "l_world s' = l_world s"
  with purge_step_effect [where a=a and now=now and f=f and s=s'] assms
  show "l_world (flow_state (purge_step a now f s')) = l_world s" by auto
qed

text \<open>The usage probe succeeds on a path that exists when the capacity can be read.\<close>

lemma exists_probe:
  "exists w p \<Longrightarrow> probe_fault w = None \<Longrightarrow> \<exists>b. disk_usage_percent w p = Inr b"
  by (auto simp: disk_usage_percent_def exists_def Let_def split: sum.splits)

text \<open>As long as \<open>stat\<close> raises nothing but \<open>FileNotFoundError\<close>, the capacity can be read, and
  the path whose filesystem is probed is there and is no candidate, no pass raises: a failed
  deletion is not an exception of the loop.\<close>

lemma purge_loop_no_raise:
  assumes "no_stat_faults (l_world s)" and "probe_fault (l_world s) = None"
    and "exists (l_world s) (root_for_usage a)" and "root_for_usage a \<notin> set fs"
  shows "fst (purge_loop a now fs s) = None \<and>
         exists (l_world (snd (purge_loop a now fs s))) (root_for_usage a)"
  using assms
proof (induction fs arbitrary: s)
  case Nil
  then show ?case by simp
next
  case (Cons f fs)
  let ?r = "root_for_usage a"
  let ?s = "flow_state (purge_step a now f s)"
  have ne: "f \<noteq> ?r" using Cons.prems by auto
  have keep: "no_stat_faults w' \<and> probe_fault w' = None \<and> exists w' ?r"
    if "w' = l_world s \<or> unlink (l_world s) f = Inr w'" for w'
  proof -
    from that show ?thesis
    proof
      assume "w' = l_world s"
      with Cons.prems(1,2,3) show ?thesis by simp
    next
      assume u: "unlink (l_world s) f = Inr w'"
      from unlink_no_faults [OF u Cons.prems(1)] unlink_frame [OF u] Cons.prems(2,3)
        unlink_stat_other [OF u, of ?r] ne
      show ?thesis by (simp add: exists_def)
    qed
  qed
  from purge_step_effect [where a=a and now=now and f=f and s=s]
  have w: "l_world ?s = l_world s \<or> unlink (l_world s) f = Inr (l_world ?s)"
    by blast
  note inv = keep [OF w]
  have nr: "purge_step a now f s \<noteq> Raise e s1" for e s1
  proof (cases rule: purge_step_cases [where a=a and s=s and now=now and f=f])
    case limit
    then show ?thesis by simp
  next
    case gone
    then show ?thesis by simp
  next
    case (stat_raised e')
    with stat_no_faults [OF Cons.prems(1)] show ?thesis by blast
  next
    case (fresh st)
    then show ?thesis by simp
  next
    case (tried st)
    have w1: "l_world (attempt a f (st_size st) s) = l_world s \<or>
              unlink (l_world s) f = Inr (l_world (attempt a f (st_size st) s))"
      by (cases rule: attempt_cases [where a=a and f=f and sz="st_size st" and s=s]) simp_all
    from keep [OF w1] exists_probe
    obtain pct where "disk_usage_percent (l_world (attempt a f (st_size st) s)) ?r = Inr pct"
      by blast
    with tried show ?thesis by simp
  qed
  show ?case
  proof (cases "purge_step a now f s")
    case (Continue s1)
    with inv have "no_stat_faults (l_world s1)" "probe_fault (l_world s1) = None" "exists (l_world s1) ?r"
      by simp_all
    with Cons.IH [of s1] Cons.prems(4) Continue show ?thesis by simp
  next
    case (Break s1)
    with inv show ?thesis by simp
  next
    case (Raise e s1)
    with nr show ?thesis by blast
  qed
qed

section \<open>Facts about the sort and the engine as a whole\<close>

text \<open>On candidates whose \<open>stat\<close> raises nothing but \<open>FileNotFoundError\<close> the sort does not
  fail: it is the stable sort by modification time, the current time standing in for the
  modification time of a missing file.\<close>

lemma mtime_safe_eq: "readable w p \<Longrightarrow> mtime_safe w p = Inr (effective_mtime w p)"
  by (cases rule: stat_cases [where w=w and p=p])
    (auto simp: mtime_safe_def effective_mtime_def readable_def)

lemma sort_keys_eq:
  "\<forall>f \<in> set fs. readable w f \<Longrightarrow> sort_keys w fs = Inr (map (\<lambda>f. (effective_mtime w f, f)) fs)"
  by (induction fs) (simp_all add: mtime_safe_eq)

lemma insort_key_decorated:
  "insort_key fst (k f, f) (map (\<lambda>f. (k f, f)) ys) = map (\<lambda>f. (k f, f)) (insort_key k f ys)"
  by (induction ys) simp_all

lemma sort_key_decorated:
  "sort_key fst (map (\<lambda>f. (k f, f)) fs) = map (\<lambda>f. (k f, f)) (sort_key k fs)"
  by (induction fs) (simp_all add: insort_key_decorated)

lemma sort_files_eq:
  "\<forall>f \<in> set fs. readable w f \<Longrightarrow> sort_files w fs = Inr (sort_key (effective_mtime w) fs)"
  by (simp add: sort_files_def sort_keys_eq sort_key_decorated comp_def)

lemma collect_is_file: "p \<in> set (collect_lora_files w d al ex) \<Longrightarrow> is_file w p"
  by (auto simp: collect_lora_files_def collect_keep_def split: if_splits)

lemma is_file_readable: "is_file w p \<Longrightarrow> readable w p"
  by (auto simp: is_file_def readable_def)

lemma sort_files_collect:
  "sort_files w (collect_lora_files w d al ex) =
     Inr (sort_key (effective_mtime w) (collect_lora_files w d al ex))"
  by (intro sort_files_eq ballI is_file_readable collect_is_file)

lemma subseq_sorted_map:
  "subseq xs ys \<Longrightarrow> sorted (map k ys) \<Longrightarrow> sorted (map k xs)"
proof (induction xs ys rule: list_emb.induct)
  case (list_emb_Nil ys)
  then show ?case by simp
next
  case (list_emb_Cons xs ys y)
  then show ?case by simp
next
  case (list_emb_Cons2 x y xs ys)
  then have "set xs \<subseteq> set ys" by (auto dest: list_emb_set)
  with list_emb_Cons2 show ?case by auto
qed

text \<open>The candidates in the order the loop takes them.\<close>

lemma purge_cases:
  fixes w a
  defines "fs \<equiv> sort_key (effective_mtime w)
                   (collect_lora_files w (loras_dir a) (allowed_suffixes a) (exclude_names a))"
  obtains (probe_failed) e where "disk_usage_percent w (root_for_usage a) = Inl e"
      "purge_oldest_until_below w a = (Inl e, w)"
  | (below) b where "disk_usage_percent w (root_for_usage a) = Inr b" "b < threshold_percent a"
      "purge_oldest_until_below w a =
         (Inr \<lparr>triggered = False, before_used_pct = b, after_used_pct = b,
               files_deleted = 0, bytes_freed = 0,
               log = [UsageOK b (threshold_percent a)]\<rparr>, w)"
  | (raised) b e s where "disk_usage_percent w (root_for_usage a) = Inr b" "\<not> b < threshold_percent a"
      "purge_loop a (clock w) fs (init_state a w b) = (Some e, s)"
      "purge_oldest_until_below w a = (Inl e, l_world s)"
  | (after_failed) b e s where "disk_usage_percent w (root_for_usage a) = Inr b" "\<not> b < threshold_percent a"
      "purge_loop a (clock w) fs (init_state a w b) = (None, s)"
      "disk_usage_percent (l_world s) (root_for_usage a) = Inl e"
      "purge_oldest_until_below w a = (Inl e, l_world s)"
  | (returned) b s c where "disk_usage_percent w (root_for_usage a) = Inr b" "\<not> b < threshold_percent a"
      "purge_loop a (clock w) fs (init_state a w b) = (None, s)"
      "disk_usage_percent (l_world s) (root_for_usage a) = Inr c"
      "purge_oldest_until_below w a = (Inr (summary b c s), l_world s)"
proof (cases "disk_usage_percent w (root_for_usage a)")
  case (Inl e)
  then have "purge_oldest_until_below w a = (Inl e, w)"
    by (simp add: purge_oldest_until_below_def)
  with Inl show ?thesis by (rule probe_failed)
next
  case (Inr b)
  show ?thesis
  proof (cases "b < threshold_percent a")
    case True
    with Inr have "purge_oldest_until_below w a =
         (Inr \<lparr>triggered = False, before_used_pct = b, after_used_pct = b,
               files_deleted = 0, bytes_freed = 0,
               log = [UsageOK b (threshold_percent a)]\<rparr>, w)"
      by (simp add: purge_oldest_until_below_def)
    with Inr True show ?thesis by (rule below)
  next
    case False
    obtain r s where L: "purge_loop a (clock w) fs (init_state a w b) = (r, s)"
      by (cases "purge_loop a (clock w) fs (init_state a w b)")
    show ?thesis
    proof (cases r)
      case (Some e)
      with Inr False L have "purge_oldest_until_below w a = (Inl e, l_world s)"
        by (simp add: purge_oldest_until_below_def sort_files_collect fs_def)
      with Inr False L Some show ?thesis by (auto intro: raised)
    next
      case None
      show ?thesis
      proof (cases "disk_usage_percent (l_world s) (root_for_usage a)")
        case e: (Inl e)
        with Inr False L None have "purge_oldest_until_below w a = (Inl e, l_world s)"
          by (simp add: purge_oldest_until_below_def sort_files_collect fs_def)
        with Inr False L None e show ?thesis by (auto intro: after_failed)
      next
        case c: (Inr c)
        with Inr False L None have "purge_oldest_until_below w a = (Inr (summary b c s), l_world s)"
          by (simp add: purge_oldest_until_below_def sort_files_collect fs_def)
        with Inr False L None c show ?thesis by (auto intro: returned)
      qed
    qed
  qed
qed

section \<open>Below the threshold nothing happens\<close>

text \<open>
  Claim C4. When the usage probed at the start is strictly below the threshold, the engine
  deletes nothing: it returns the world as it found it, with \<open>triggered\<close> false, no file
  and no byte counted, and the usage after equal to the usage before.
\<close>
theorem below_threshold_not_triggered:
  assumes "disk_usage_percent w (root_for_usage a) = Inr b" and "b < threshold_percent a"
  shows "purge_oldest_until_below w a =
           (Inr \<lparr>triggered = False, before_used_pct = b, after_used_pct = b,
                 files_deleted = 0, bytes_freed = 0,
                 log = [UsageOK b (threshold_percent a)]\<rparr>, w)"
  using assms by (simp add: purge_oldest_until_below_def)

theorem below_threshold_not_triggered_witness:
  "purge_oldest_until_below ex_world ((ex_args 0 0 False)\<lparr>threshold_percent := 97\<rparr>) =
     (Inr \<lparr>triggered = False, before_used_pct = 96, after_used_pct = 96,
           files_deleted = 0, bytes_freed = 0, log = [UsageOK 96 97]\<rparr>, ex_world)"
proof -
  have p: "disk_usage_percent ex_world (root_for_usage ((ex_args 0 0 False)\<lparr>threshold_percent := 97\<rparr>)) = Inr 96"
    by (simp add: ex_defs fs_defs)
  have lt: "(96::rat) < threshold_percent ((ex_args 0 0 False)\<lparr>threshold_percent := 97\<rparr>)"
    by (simp add: ex_defs)
  show ?thesis
    using below_threshold_not_triggered [OF p lt] by (simp add: ex_defs)
qed

section \<open>The target is forced below the threshold\<close>



section \<open>The collector\<close>

text \<open>
  Claim C5. Under a directory, the collector returns a path exactly when the path is a
  regular file strictly below the directory, its lowercased extension is among the allowed
  suffixes whenever there are any, and no excluded string occurs in its lowercased name.
  When the directory does not exist or is no directory the collector returns the empty
  list; it has no error result.
\<close>
theorem collect_lora_files_iff:
  "(is_dir w d \<longrightarrow>
      (p \<in> set (collect_lora_files w d allowed excl) \<longleftrightarrow>
         strict_prefix d p \<and> is_file w p \<and>
         (allowed \<noteq> [] \<longrightarrow> lower (suffix_of p) \<in> set allowed) \<and>
         \<not> (\<exists>x \<in> set excl. sublist x (lower (name p))))) \<and>
   (\<not> exists w d \<or> \<not> is_dir w d \<longrightarrow> collect_lora_files w d allowed excl = [])"
proof -
  have ex: "is_dir w d \<Longrightarrow> exists w d"
    by (simp add: is_dir_def exists_def split: sum.splits)
  show ?thesis
    using ex is_file_in_entries [of w p]
    by (auto simp: collect_lora_files_def collect_keep_def rglob_def list_ex_iff str_in_sublist)
qed

theorem collect_lora_files_iff_witness:
  "is_dir ex_world [''m''] \<and>
   [''m'', ''a.pt''] \<in> set (collect_lora_files ex_world [''m''] [''.pt''] [''keep'']) \<and>
   [''m'', ''keep.pt''] \<notin> set (collect_lora_files ex_world [''m''] [''.pt''] [''keep'']) \<and>
   \<not> exists ex_world [''nowhere''] \<and>
   collect_lora_files ex_world [''nowhere''] [''.pt''] [''keep''] = []"
proof -
  have d: "is_dir ex_world [''m'']" by (simp add: ex_defs fs_defs)
  have n: "\<not> exists ex_world [''nowhere'']" by (simp add: ex_defs fs_defs)
  have a: "strict_prefix [''m''] [''m'', ''a.pt''] \<and> is_file ex_world [''m'', ''a.pt''] \<and>
         ([''.pt''] \<noteq> [] \<longrightarrow> lower (suffix_of [''m'', ''a.pt'']) \<in> set [''.pt'']) \<and>
         \<not> (\<exists>x \<in> set [''keep'']. sublist x (lower (name [''m'', ''a.pt''])))"
    by (simp add: ex_defs fs_defs str_defs str_in_sublist [symmetric])
  have k: "\<exists>x \<in> set [''keep'']. sublist x (lower (name [''m'', ''keep.pt'']))"
    by (simp add: str_defs str_in_sublist [symmetric])
  show ?thesis
    using collect_lora_files_iff [of ex_world "[''m'']" "[''m'', ''a.pt'']" "[''.pt'']" "[''keep'']"]
      collect_lora_files_iff [of ex_world "[''m'']" "[''m'', ''keep.pt'']" "[''.pt'']" "[''keep'']"]
      collect_lora_files_iff [of ex_world "[''nowhere'']" "[]" "[''.pt'']" "[''keep'']"]
      d n a k by blast
qed


lemma header_no_deletions [simp]: "deleted_paths (header_lines a b) = []"
  by (simp add: header_lines_def)

lemma summary_simps [simp]:
  "files_deleted (summary b c s) = l_files_deleted s"
  "bytes_freed (summary b c s) = l_bytes_freed s"
  "deleted_paths (log (summary b c s)) = deleted_paths (l_lines s)"
  "before_used_pct (summary b c s) = b"
  "after_used_pct (summary b c s) = c"
  "triggered (summary b c s) = True"
  by (simp_all add: summary_def)

lemma init_state_simps [simp]:
  "l_world (init_state a w b) = w"
  "l_files_deleted (init_state a w b) = 0"
  "l_bytes_freed (init_state a w b) = 0"
  "deleted_paths (l_lines (init_state a w b)) = []"
  by (simp_all add: init_state_def)

lemma sort_key_in_set: "set (sort_key k xs) = set xs"
  by simp

text \<open>What the node returns comes from the engine, when the model directory exists.\<close>

lemma run_from_engine:
  assumes "exists w loras"
  shows "run w loras th tg ac ec m n d =
           (case purge_oldest_until_below w (run_args loras th tg ac ec m n d) of
              (Inl e, w1) \<Rightarrow> (Inl e, w1)
            | (Inr res, w1) \<Rightarrow>
                (Inr \<lparr>r_log = log res @ [Blank, fst (clear_user_trash w1)],
                      used_before_pct = before_used_pct res,
                      used_after_pct = after_used_pct res,
                      r_files_deleted = files_deleted res,
                      r_bytes_freed = bytes_freed res\<rparr>, snd (clear_user_trash w1)))"
  using assms by (simp add: run_def split_beta split: prod.splits sum.splits)

section \<open>The cap on deletions\<close>

lemma purge_within_limit:
  assumes "0 < delete_count_limit a" and "fst (purge_oldest_until_below w a) = Inr res"
  shows "int (files_deleted res) \<le> delete_count_limit a \<and>
         length (deleted_paths (log res)) = files_deleted res"
proof (cases rule: purge_cases [where w=w and a=a])
  case (probe_failed e)
  with assms(2) show ?thesis by simp
next
  case (below b)
  with assms show ?thesis by auto
next
  case (raised b e s)
  with assms(2) show ?thesis by simp
next
  case (after_failed b e s)
  with assms(2) show ?thesis by simp
next
  case (returned b s c)
  let ?fs = "sort_key (effective_mtime w)
               (collect_lora_files w (loras_dir a) (allowed_suffixes a) (exclude_names a))"
  have s: "s = snd (purge_loop a (clock w) ?fs (init_state a w b))"
    using returned(3) by simp
  have "int (l_files_deleted s) \<le> delete_count_limit a"
    unfolding s using assms(1) by (intro purge_loop_limit) simp_all
  moreover have "length (deleted_paths (l_lines s)) = l_files_deleted s"
    unfolding s by (intro purge_loop_count) simp
  moreover have "res = summary b c s"
    using returned(5) assms(2) by simp
  ultimately show ?thesis by simp
qed

text \<open>
  Claim C8. With a deletion count limit greater than zero, the number of files counted as
  deleted, really or in a dry run, is at most the limit: for the engine, where the count
  is also the number of deletions its log reports, and for the node, which returns the
  count of the engine.
\<close>

theorem deletions_within_limit:
  assumes "0 < n"
  shows "(delete_count_limit a = n \<and> fst (purge_oldest_until_below w a) = Inr res \<longrightarrow>
            int (files_deleted res) \<le> n \<and> length (deleted_paths (log res)) = files_deleted res) \<and>
         (fst (run w loras th tg ac ec m n d) = Inr r \<longrightarrow> int (r_files_deleted r) \<le> n)"
proof (intro conjI impI)
  assume "delete_count_limit a = n \<and> fst (purge_oldest_until_below w a) = Inr res"
  with assms purge_within_limit [of a w res]
  show "int (files_deleted res) \<le> n" and "length (deleted_paths (log res)) = files_deleted res"
    by simp_all
next
  assume r: "fst (run w loras th tg ac ec m n d) = Inr r"
  show "int (r_files_deleted r) \<le> n"
  proof (cases "exists w loras")
    case False
    with r assms show ?thesis
      by (auto simp: run_def split: sum.splits)
  next
    case True
    let ?a = "run_args loras th tg ac ec m n d"
    obtain x w1 where p: "purge_oldest_until_below w ?a = (x, w1)"
      by (cases "purge_oldest_until_below w ?a")
    with r True obtain res' where x: "x = Inr res'" and "r_files_deleted r = files_deleted res'"
      by (cases x) (auto simp: run_from_engine)
    moreover have "int (files_deleted res') \<le> delete_count_limit ?a"
      using purge_within_limit [of ?a w res'] p x assms by (simp add: run_args_def)
    ultimately show ?thesis by (simp add: run_args_def)
  qed
qed

theorem deletions_within_limit_witness:
  "(0::int) < 1 \<and>
   fst (run ex_world [''m''] 90 85 ''.pt'' ''keep'' 0 1 True) =
     Inr \<lparr>r_log = [FreedTotal 5 1, UsageBeforeAfter 96 96, Blank,
                    Purging 96 90 [''m''], TargetAfter 85, AllowedSuffixes [''.pt''],
                    ExcludedNames [''keep''], Policy 0 1 True, Blank, DeletionsHeading,
                    DryRunLine [''m'', ''a.pt''] 5, StopLimit 1, Blank,
                    TrashCleared [''h'', ''.local'', ''share'', ''Trash'', ''files''] 7],
          used_before_pct = 96, used_after_pct = 96, r_files_deleted = 1, r_bytes_freed = 5\<rparr> \<and>
   int 1 \<le> (1::int)"
proof -
  have r: "fst (run ex_world [''m''] 90 85 ''.pt'' ''keep'' 0 1 True) =
     Inr \<lparr>r_log = [FreedTotal 5 1, UsageBeforeAfter 96 96, Blank,
                    Purging 96 90 [''m''], TargetAfter 85, AllowedSuffixes [''.pt''],
                    ExcludedNames [''keep''], Policy 0 1 True, Blank, DeletionsHeading,
                    DryRunLine [''m'', ''a.pt''] 5, StopLimit 1, Blank,
                    TrashCleared [''h'', ''.local'', ''share'', ''Trash'', ''files''] 7],
          used_before_pct = 96, used_after_pct = 96, r_files_deleted = 1, r_bytes_freed = 5\<rparr>"
    by (simp add: ex_defs fs_defs str_defs eng_defs)
  have l: "(0::int) < 1" by simp
  from deletions_within_limit [OF l, where w=ex_world and loras="[''m'']" and th=90 and tg=85
      and ac="''.pt''" and ec="''keep''" and m=0 and d=True] r
  show ?thesis by simp
qed

section \<open>Fresh files are protected\<close>

text \<open>
  Claim C7. With a minimum age configured (greater than zero), a file whose age, the
  current time minus its modification time, is below the minimum age is still there,
  unchanged, when the engine is done, however the engine ends, and the log of the engine
  does not report it as deleted, in a dry run or a live one.
\<close>

theorem fresh_file_never_deleted:
  assumes "0 < min_age_seconds a" and "stat w p = Inr e"
    and "clock w - st_mtime e < of_int (min_age_seconds a)"
  shows "stat (snd (purge_oldest_until_below w a)) p = Inr e \<and>
         (\<forall>res. fst (purge_oldest_until_below w a) = Inr res \<longrightarrow> p \<notin> set (deleted_paths (log res)))"
proof -
  let ?fs = "sort_key (effective_mtime w)
               (collect_lora_files w (loras_dir a) (allowed_suffixes a) (exclude_names a))"
  have fresh: "too_fresh a (clock w) e"
    using assms(1,3) by (simp add: too_fresh_def)
  have loop: "stat (l_world (snd (purge_loop a (clock w) ?fs (init_state a w b)))) p = Inr e \<and>
              p \<notin> set (deleted_paths (l_lines (snd (purge_loop a (clock w) ?fs (init_state a w b)))))"
    for b
    using assms(2) fresh by (intro purge_loop_fresh) simp_all
  show ?thesis
  proof (cases rule: purge_cases [where w=w and a=a])
    case (probe_failed e')
    with assms(2) show ?thesis by simp
  next
    case (below b)
    with assms(2) show ?thesis by auto
  next
    case (raised b e' s)
    with loop [of b] show ?thesis by simp
  next
    case (after_failed b e' s)
    with loop [of b] show ?thesis by simp
  next
    case (returned b s c)
    with loop [of b] show ?thesis by simp
  qed
qed

theorem fresh_file_never_deleted_witness:
  "(0::int) < min_age_seconds (ex_args 60 0 False) \<and>
   stat ex_world [''m'', ''b.pt''] = Inr (ex_file 3 50) \<and>
   clock ex_world - st_mtime (ex_file 3 50) < of_int (min_age_seconds (ex_args 60 0 False)) \<and>
   stat (snd (purge_oldest_until_below ex_world (ex_args 60 0 False))) [''m'', ''b.pt''] = Inr (ex_file 3 50) \<and>
   stat (snd (purge_oldest_until_below ex_world (ex_args 60 0 False))) [''m'', ''a.pt''] = Inl FileNotFoundError"
proof -
  have 1: "(0::int) < min_age_seconds (ex_args 60 0 False)" by (simp add: ex_defs)
  have 2: "stat ex_world [''m'', ''b.pt''] = Inr (ex_file 3 50)" by (simp add: ex_defs fs_defs)
  have 3: "clock ex_world - st_mtime (ex_file 3 50) < of_int (min_age_seconds (ex_args 60 0 False))"
    by (simp add: ex_defs)
  have 4: "stat (snd (purge_oldest_until_below ex_world (ex_args 60 0 False))) [''m'', ''a.pt''] = Inl FileNotFoundError"
    by (simp add: ex_defs fs_defs str_defs eng_defs)
  from fresh_file_never_deleted [OF 1 2 3] 1 2 3 4 show ?thesis by blast
qed

section \<open>Oldest first\<close>

lemma mtime_safe_simps:
  "stat w v = Inl FileNotFoundError \<Longrightarrow> mtime_safe w v = Inr (clock w)"
  "stat w v = Inr e \<Longrightarrow> mtime_safe w v = Inr (st_mtime e)"
  by (simp_all add: mtime_safe_def)

lemma effective_mtime_simps:
  "stat w v = Inl FileNotFoundError \<Longrightarrow> effective_mtime w v = clock w"
  "stat w v = Inr e \<Longrightarrow> effective_mtime w v = st_mtime e"
  by (simp_all add: effective_mtime_def mtime_safe_def)

text \<open>Unlinking one file does not change whether another is to be taken.\<close>

lemma removable_unlink_other:
  assumes "unlink w f = Inr w'" and "g \<noteq> f"
  shows "removable w' g = removable w g"
proof -
  from assms(1) have "entries w' = entries w \<or> entries w' = filter (\<lambda>qe. fst qe \<noteq> f) (entries w)"
    by (auto simp: unlink_def split: option.splits if_splits)
  then have "map_of (entries w') g = map_of (entries w) g"
    using assms(2) by (auto simp: map_of_filter_other)
  then show ?thesis
    by (auto simp: removable_def unlink_def split: option.splits sum.splits if_splits)
qed

lemma to_take_unlink_other:
  "unlink w f = Inr w' \<Longrightarrow> g \<noteq> f \<Longrightarrow> to_take a now w' g = to_take a now w g"
  by (simp add: to_take_def eligible_def unlink_stat_other removable_unlink_other)

text \<open>What a deletion attempt on a candidate that is there and old enough reports: the
  candidate, if it is to be taken, and nothing otherwise.\<close>

lemma attempt_takes:
  assumes "stat (l_world s) f = Inr st" and "\<not> too_fresh a now st"
  shows "deleted_paths (l_lines (attempt a f sz s)) =
           deleted_paths (l_lines s) @ filter (to_take a now (l_world s)) [f] \<and>
         (l_world (attempt a f sz s) = l_world s \<or>
          unlink (l_world s) f = Inr (l_world (attempt a f sz s)))"
proof -
  have el: "eligible a now (l_world s) f"
    using assms by (simp add: eligible_def)
  show ?thesis
  proof (cases rule: attempt_cases [where a=a and f=f and sz=sz and s=s])
    case dry
    with el show ?thesis by (simp add: to_take_def)
  next
    case (deleted w')
    with el show ?thesis by (simp add: to_take_def removable_def)
  next
    case (failed e)
    with el show ?thesis by (simp add: to_take_def removable_def)
  qed
qed

text \<open>The loop reports as deleted exactly the candidates to take among those it has reached:
  it goes through the list from its head and passes over no candidate that is to be taken.\<close>

lemma purge_loop_takes:
  assumes "distinct fs"
  shows "\<exists>n. deleted_paths (l_lines (snd (purge_loop a now fs s))) =
              deleted_paths (l_lines s) @ filter (to_take a now (l_world s)) (take n fs)"
  using assms
proof (induction fs arbitrary: s)
  case Nil
  then show ?case by simp
next
  case (Cons f fs)
  let ?W = "l_world s"
  have zero: "\<exists>n. deleted_paths (l_lines s') =
              deleted_paths (l_lines s) @ filter (to_take a now ?W) (take n (f # fs))"
    if "deleted_paths (l_lines s') = deleted_paths (l_lines s)" for s' :: loop_state
    using that by (intro exI [of _ 0]) simp
  have skip: "\<exists>n. deleted_paths (l_lines (snd (purge_loop a now (f # fs) s))) =
              deleted_paths (l_lines s) @ filter (to_take a now ?W) (take n (f # fs))"
    if "purge_step a now f s = Continue s" and "\<not> to_take a now ?W f"
  proof -
    from Cons.IH [of s] Cons.prems obtain n where
      "deleted_paths (l_lines (snd (purge_loop a now fs s))) =
         deleted_paths (l_lines s) @ filter (to_take a now ?W) (take n fs)"
      by auto
    with that show ?thesis by (intro exI [of _ "Suc n"]) simp
  qed
  show ?case
  proof (cases rule: purge_step_cases [where a=a and s=s and now=now and f=f])
    case limit
    then show ?thesis by (intro zero) simp
  next
    case gone
    then show ?thesis by (intro skip) (simp_all add: to_take_def eligible_def)
  next
    case (stat_raised e)
    then show ?thesis by (intro zero) simp
  next
    case (fresh st)
    then show ?thesis by (intro skip) (simp_all add: to_take_def eligible_def)
  next
    case (tried st)
    let ?s1 = "attempt a f (st_size st) s"
    from attempt_takes [OF tried(2,3), of "st_size st"]
    have dp1: "deleted_paths (l_lines ?s1) = deleted_paths (l_lines s) @ filter (to_take a now ?W) [f]"
      and w1: "l_world ?s1 = ?W \<or> unlink ?W f = Inr (l_world ?s1)"
      by simp_all
    have one: "\<exists>n. deleted_paths (l_lines s') =
              deleted_paths (l_lines s) @ filter (to_take a now ?W) (take n (f # fs))"
      if "deleted_paths (l_lines s') = deleted_paths (l_lines ?s1)" for s' :: loop_state
      using that dp1 by (intro exI [of _ "Suc 0"]) simp
    show ?thesis
    proof (cases "purge_step a now f s")
      case (Raise e s')
      with tried(4) have "deleted_paths (l_lines s') = deleted_paths (l_lines ?s1)"
        by (auto split: sum.splits if_splits)
      from one [OF this] Raise show ?thesis by simp
    next
      case (Break s')
      with tried(4) have "deleted_paths (l_lines s') = deleted_paths (l_lines ?s1)"
        by (auto split: sum.splits if_splits)
      from one [OF this] Break show ?thesis by simp
    next
      case (Continue s')
      with tried(4) have s': "s' = ?s1"
        by (auto split: sum.splits if_splits)
      from Cons.IH [of ?s1] Cons.prems obtain n where
        n: "deleted_paths (l_lines (snd (purge_loop a now fs ?s1))) =
           deleted_paths (l_lines ?s1) @ filter (to_take a now (l_world ?s1)) (take n fs)"
        by auto
      have same: "to_take a now (l_world ?s1) g = to_take a now ?W g" if "g \<in> set (take n fs)" for g
      proof -
        from that have "g \<in> set fs" by (rule in_set_takeD)
        with Cons.prems have "g \<noteq> f" by auto
        with w1 show ?thesis by (auto simp: to_take_unlink_other)
      qed
      then have "filter (to_take a now (l_world ?s1)) (take n fs) = filter (to_take a now ?W) (take n fs)"
        by (intro filter_cong) simp_all
      with n dp1 Continue s' show ?thesis
        by (intro exI [of _ "Suc n"]) simp
    qed
  qed
qed

lemma collect_distinct: "distinct (collect_lora_files w d al ex)"
  by (simp add: collect_lora_files_def rglob_def)

text \<open>The engine reports as deleted the candidates to take among the first of the sorted
  candidates, each of which is a regular file of the world it started in.\<close>

lemma purge_oldest_first:
  assumes "fst (purge_oldest_until_below w a) = Inr res"
  shows "(\<exists>n. deleted_paths (log res) =
               filter (to_take a (clock w) w)
                 (take n (sort_key (effective_mtime w)
                    (collect_lora_files w (loras_dir a) (allowed_suffixes a) (exclude_names a))))) \<and>
         sorted (map (effective_mtime w) (deleted_paths (log res))) \<and>
         (\<forall>p \<in> set (deleted_paths (log res)). is_file w p)"
proof (cases rule: purge_cases [where w=w and a=a])
  case (probe_failed e)
  with assms show ?thesis by simp
next
  case (below b)
  with assms have "deleted_paths (log res) = []" by auto
  moreover have "[] = filter (to_take a (clock w) w)
      (take 0 (sort_key (effective_mtime w)
         (collect_lora_files w (loras_dir a) (allowed_suffixes a) (exclude_names a))))"
    by simp
  ultimately show ?thesis by (metis empty_iff list.set(1) list.simps(8) sorted_wrt.simps(1))
next
  case (raised b e s)
  with assms show ?thesis by simp
next
  case (after_failed b e s)
  with assms show ?thesis by simp
next
  case (returned b s c)
  let ?fs = "sort_key (effective_mtime w)
               (collect_lora_files w (loras_dir a) (allowed_suffixes a) (exclude_names a))"
  have s: "s = snd (purge_loop a (clock w) ?fs (init_state a w b))"
    using returned(3) by simp
  have res: "res = summary b c s"
    using returned(5) assms by simp
  have "distinct ?fs" by (simp add: collect_distinct)
  from purge_loop_takes [OF this, of a "clock w" "init_state a w b"] obtain n where
    n: "deleted_paths (l_lines s) = filter (to_take a (clock w) w) (take n ?fs)"
    unfolding s by auto
  have "subseq (filter (to_take a (clock w) w) (take n ?fs)) ?fs"
    by (rule subseq_order.trans [OF subseq_filter_left]) (metis append_take_drop_id subseq_order.order_refl subseq_append_le_same_iff list_emb_append_mono list_emb_Nil subseq_order.dual_order.refl append_Nil2)
  then have srt: "sorted (map (effective_mtime w) (deleted_paths (l_lines s)))"
    using subseq_sorted_map [of _ ?fs "effective_mtime w"] n by simp
  have "\<forall>p \<in> set (deleted_paths (l_lines s)). is_file w p"
    unfolding n by (auto dest!: in_set_takeD intro: collect_is_file)
  with n srt res show ?thesis by auto
qed

lemma sorted_missing_after:
  assumes "sorted (map k ys)" and "i < length ys" and "j < length ys" and "k (ys ! j) < k (ys ! i)"
  shows "j < i"
proof (rule ccontr)
  assume "\<not> j < i"
  then have "i \<le> j" by simp
  with assms(1,3) have "map k ys ! i \<le> map k ys ! j"
    by (intro sorted_nth_mono) simp_all
  with assms(2,3,4) show False by simp
qed

text \<open>
  Claim C9, amended. Deletions proceed strictly oldest first: the engine goes through the
  candidates in ascending order of their modification times, candidates of the same time
  in the order of enumeration, and reports as deleted exactly those it has reached that
  exist, are old enough and, in a live run, can be removed; it passes over no such
  candidate for a newer one, and every file it reports was a regular file when it started.
  On candidates whose \<open>stat\<close> raises nothing but \<open>FileNotFoundError\<close> the sort does not fail
  and is stable; a candidate that no longer exists gets the current time as its key, so it
  comes after every candidate modified before now.
\<close>

theorem deletions_oldest_first:
  "((\<forall>f \<in> set fs. readable w f) \<longrightarrow> sort_files w fs = Inr (sort_key (effective_mtime w) fs)) \<and>
   (stat w v = Inl FileNotFoundError \<longrightarrow> mtime_safe w v = Inr (clock w)) \<and>
   (\<forall>e. stat w v = Inr e \<longrightarrow> mtime_safe w v = Inr (st_mtime e)) \<and>
   (\<forall>i j. i < length fs \<and> j < length fs \<and>
          stat w (sort_key (effective_mtime w) fs ! i) = Inl FileNotFoundError \<and>
          effective_mtime w (sort_key (effective_mtime w) fs ! j) < clock w \<longrightarrow> j < i) \<and>
   (fst (purge_oldest_until_below w a) = Inr res \<longrightarrow>
      (\<exists>n. deleted_paths (log res) =
            filter (to_take a (clock w) w)
              (take n (sort_key (effective_mtime w)
                 (collect_lora_files w (loras_dir a) (allowed_suffixes a) (exclude_names a))))) \<and>
      sorted (map (effective_mtime w) (deleted_paths (log res))) \<and>
      (\<forall>p \<in> set (deleted_paths (log res)). is_file w p))"
proof -
  let ?ys = "sort_key (effective_mtime w) fs"
  have "j < i" if "i < length fs" "j < length fs" "stat w (?ys ! i) = Inl FileNotFoundError"
    "effective_mtime w (?ys ! j) < clock w" for i j
    using that sorted_missing_after [of "effective_mtime w" ?ys i j]
    by (simp add: effective_mtime_simps)
  then show ?thesis
    using sort_files_eq [of fs w] mtime_safe_simps [of w v] purge_oldest_first [of w a res]
    by blast
qed

theorem deletions_oldest_first_witness:
  "readable ex_world [''m'', ''b.pt''] \<and> readable ex_world [''m'', ''gone.pt''] \<and>
   readable ex_world [''m'', ''a.pt''] \<and>
   sort_files ex_world [[''m'', ''b.pt''], [''m'', ''gone.pt''], [''m'', ''a.pt'']] =
     Inr [[''m'', ''a.pt''], [''m'', ''b.pt''], [''m'', ''gone.pt'']] \<and>
   stat ex_world [''m'', ''gone.pt''] = Inl FileNotFoundError \<and>
   mtime_safe ex_world [''m'', ''gone.pt''] = Inr 100 \<and>
   fst (purge_oldest_until_below ex_locked (ex_args 0 0 False)) =
     Inr (summary 96 93 \<lparr>l_world = ex_locked\<lparr>entries := filter (\<lambda>qe. fst qe \<noteq> [''m'', ''b.pt''])
                                                        (entries ex_locked)\<rparr>,
            l_bytes_freed = 3, l_files_deleted = 1,
            l_lines = header_lines (ex_args 0 0 False) 96 @
               [SkipPermission [''m'', ''a.pt''], DeletedLine [''m'', ''b.pt''] 3]\<rparr>) \<and>
   sort_key (effective_mtime ex_locked)
     (collect_lora_files ex_locked [''m''] [''.pt''] [''keep'']) = [[''m'', ''a.pt''], [''m'', ''b.pt'']] \<and>
   \<not> to_take (ex_args 0 0 False) 100 ex_locked [''m'', ''a.pt''] \<and>
   to_take (ex_args 0 0 False) 100 ex_locked [''m'', ''b.pt''] \<and>
   (\<exists>n. [[''m'', ''b.pt'']] =
        filter (to_take (ex_args 0 0 False) 100 ex_locked) (take n [[''m'', ''a.pt''], [''m'', ''b.pt'']]))"
proof -
  let ?a = "ex_args 0 0 False"
  let ?res = "summary 96 93 \<lparr>l_world = ex_locked\<lparr>entries := filter (\<lambda>qe. fst qe \<noteq> [''m'', ''b.pt''])
                                                        (entries ex_locked)\<rparr>,
            l_bytes_freed = 3, l_files_deleted = 1,
            l_lines = header_lines ?a 96 @
               [SkipPermission [''m'', ''a.pt''], DeletedLine [''m'', ''b.pt''] 3]\<rparr>"
  have rd: "\<forall>f \<in> set [[''m'', ''b.pt''], [''m'', ''gone.pt''], [''m'', ''a.pt'']]. readable ex_world f"
    by (simp add: ex_defs fs_defs readable_def)
  have g: "stat ex_world [''m'', ''gone.pt''] = Inl FileNotFoundError"
    by (simp add: ex_defs fs_defs)
  have c: "clock ex_world = 100" by (simp add: ex_defs)
  have k: "sort_key (effective_mtime ex_world) [[''m'', ''b.pt''], [''m'', ''gone.pt''], [''m'', ''a.pt'']] =
     [[''m'', ''a.pt''], [''m'', ''b.pt''], [''m'', ''gone.pt'']]"
    by (simp add: ex_defs fs_defs eng_defs)
  have r: "fst (purge_oldest_until_below ex_locked ?a) = Inr ?res"
    by (simp add: ex_defs fs_defs str_defs eng_defs)
  have fs: "sort_key (effective_mtime ex_locked)
     (collect_lora_files ex_locked (loras_dir ?a) (allowed_suffixes ?a) (exclude_names ?a)) =
       [[''m'', ''a.pt''], [''m'', ''b.pt'']]"
    by (simp add: ex_defs fs_defs str_defs eng_defs)
  have ar: "loras_dir ?a = [''m''] \<and> allowed_suffixes ?a = [''.pt''] \<and> exclude_names ?a = [''keep'']"
    by (simp add: ex_defs)
  have cl: "clock ex_locked = 100" by (simp add: ex_defs)
  have t: "\<not> to_take ?a 100 ex_locked [''m'', ''a.pt''] \<and> to_take ?a 100 ex_locked [''m'', ''b.pt'']"
    by (simp add: ex_defs fs_defs eng_defs)
  have dp: "deleted_paths (log ?res) = [[''m'', ''b.pt'']]"
    by simp
  from deletions_oldest_first [where w=ex_world
      and fs="[[''m'', ''b.pt''], [''m'', ''gone.pt''], [''m'', ''a.pt'']]"
      and v="[''m'', ''gone.pt'']"] rd g c k
  have 1: "sort_files ex_world [[''m'', ''b.pt''], [''m'', ''gone.pt''], [''m'', ''a.pt'']] =
     Inr [[''m'', ''a.pt''], [''m'', ''b.pt''], [''m'', ''gone.pt'']]"
    and 2: "mtime_safe ex_world [''m'', ''gone.pt''] = Inr 100"
    by simp_all
  from deletions_oldest_first [where w=ex_locked and a="?a" and res="?res"] r
  have "\<exists>n. deleted_paths (log ?res) =
            filter (to_take ?a (clock ex_locked) ex_locked)
              (take n (sort_key (effective_mtime ex_locked)
                 (collect_lora_files ex_locked (loras_dir ?a) (allowed_suffixes ?a) (exclude_names ?a))))"
    by blast
  then have 3: "\<exists>n. [[''m'', ''b.pt'']] =
        filter (to_take ?a 100 ex_locked) (take n [[''m'', ''a.pt''], [''m'', ''b.pt'']])"
    unfolding fs cl dp .
  from rd g 1 2 r fs ar t 3 show ?thesis by simp
qed

text \<open>
  Claim C9 as stated fails in three ways. With the clock at 20, the candidate that no longer
  exists gets the key 20 and is sorted before the file modified at time 50, not last. A
  candidate on which \<open>stat\<close> raises \<open>PermissionError\<close> makes the key function, and with it
  the sort, raise. And two files modified at the same time are both deleted, so the
  modification times of the deletions do not ascend strictly.
\<close>

theorem missing_file_not_last_counterexample:
  "stat (ex_world\<lparr>clock := 20\<rparr>) [''m'', ''gone.pt''] = Inl FileNotFoundError \<and>
   is_file (ex_world\<lparr>clock := 20\<rparr>) [''m'', ''b.pt''] \<and>
   sort_files (ex_world\<lparr>clock := 20\<rparr>) [[''m'', ''b.pt''], [''m'', ''gone.pt'']] =
     Inr [[''m'', ''gone.pt''], [''m'', ''b.pt'']] \<and>
   stat ex_denied [''m'', ''a.pt''] = Inl PermissionError \<and>
   mtime_safe ex_denied [''m'', ''a.pt''] = Inl PermissionError \<and>
   sort_files ex_denied [[''m'', ''b.pt''], [''m'', ''a.pt'']] = Inl PermissionError \<and>
   fst (purge_oldest_until_below ex_twins (ex_args 0 0 True)) =
     Inr (summary 96 96 \<lparr>l_world = ex_twins, l_bytes_freed = 8, l_files_deleted = 2,
            l_lines = header_lines (ex_args 0 0 True) 96 @
               [DryRunLine [''m'', ''b.pt''] 3, DryRunLine [''m'', ''a.pt''] 5]\<rparr>) \<and>
   mtime_safe ex_twins [''m'', ''b.pt''] = Inr 50 \<and>
   mtime_safe ex_twins [''m'', ''a.pt''] = Inr 50"
  by (simp add: ex_defs fs_defs str_defs eng_defs)

section \<open>The engine returns\<close>

lemma collect_below: "p \<in> set (collect_lora_files w d allowed excl) \<Longrightarrow> strict_prefix d p"
  by (auto simp: collect_lora_files_def rglob_def split: if_splits)

text \<open>When \<open>stat\<close> raises nothing but \<open>FileNotFoundError\<close>, the capacity can be read, and the
  probed path exists and is not itself below the model directory, the engine returns its
  summary: no failure to delete a file makes it raise.\<close>

lemma purge_returns:
  assumes "no_stat_faults w" and "probe_fault w = None"
    and "exists w (root_for_usage a)"
    and "\<not> strict_prefix (loras_dir a) (root_for_usage a)"
  shows "\<exists>res. fst (purge_oldest_until_below w a) = Inr res"
proof -
  let ?fs = "sort_key (effective_mtime w)
               (collect_lora_files w (loras_dir a) (allowed_suffixes a) (exclude_names a))"
  have nc: "root_for_usage a \<notin> set ?fs"
    using assms(4) by (auto dest: collect_below)
  have loop: "fst (purge_loop a (clock w) ?fs (init_state a w b)) = None \<and>
              exists (l_world (snd (purge_loop a (clock w) ?fs (init_state a w b)))) (root_for_usage a)"
    for b
    using assms(1,2,3) nc by (intro purge_loop_no_raise) simp_all
  have pf: "probe_fault (l_world (snd (purge_loop a (clock w) ?fs (init_state a w b)))) = None" for b
  proof (rule purge_loop_invariant [where I = "\<lambda>s. probe_fault (l_world s) = None"])
    show "probe_fault (l_world (init_state a w b)) = None" using assms(2) by simp
  next
    fix f and s :: loop_state
    assume "probe_fault (l_world s) = None"
    from purge_step_effect [where a=a and now="clock w" and f=f and s=s]
    have "l_world (flow_state (purge_step a (clock w) f s)) = l_world s \<or>
          unlink (l_world s) f = Inr (l_world (flow_state (purge_step a (clock w) f s)))"
      by blast
    then show "probe_fault (l_world (flow_state (purge_step a (clock w) f s))) = None"
    proof
      assume "l_world (flow_state (purge_step a (clock w) f s)) = l_world s"
      with \<open>probe_fault (l_world s) = None\<close> show ?thesis by simp
    next
      assume "unlink (l_world s) f = Inr (l_world (flow_state (purge_step a (clock w) f s)))"
      from unlink_frame [OF this] \<open>probe_fault (l_world s) = None\<close> show ?thesis by simp
    qed
  qed
  show ?thesis
  proof (cases rule: purge_cases [where w=w and a=a])
    case (probe_failed e)
    with exists_probe [OF assms(3,2)] show ?thesis by simp
  next
    case (below b)
    then show ?thesis by simp
  next
    case (raised b e s)
    with loop [of b] show ?thesis by simp
  next
    case (after_failed b e s)
    with loop [of b] pf [of b] exists_probe [of "l_world s" "root_for_usage a"] show ?thesis by simp
  next
    case (returned b s c)
    then show ?thesis by simp
  qed
qed

section \<open>The reclaim sweep\<close>

lemma stuck_below: "prefix t q \<Longrightarrow> stuck w q \<Longrightarrow> stuck w t"
  by (auto simp: stuck_def list_ex_iff intro: prefix_order.trans)

text \<open>Removing a tree in which no removal fails leaves nothing at or below its root.\<close>

lemma rmtree_clears:
  assumes "is_dir w t" and "\<not> stuck w t" and "prefix t p"
  shows "\<not> exists (rmtree w t) p"
proof -
  have "p \<notin> fst ` set (filter (\<lambda>qe. \<not> prefix t (fst qe) \<or> stuck w (fst qe)) (entries w))"
    using assms(2,3) by (auto dest: stuck_below)
  then have "map_of (filter (\<lambda>qe. \<not> prefix t (fst qe) \<or> stuck w (fst qe)) (entries w)) p = None"
    by (simp add: map_of_eq_None_iff)
  with assms(1) show ?thesis
    by (simp add: rmtree_def exists_def stat_def)
qed

lemma sweep_clears:
  assumes "is_dir w (trash_path w)" and "\<not> stuck w (trash_path w)" and "prefix (trash_path w) p"
  shows "\<not> exists (snd (clear_user_trash w)) p"
proof -
  have "exists w (trash_path w)"
    using assms(1) by (simp add: is_dir_def exists_def split: sum.splits)
  then show ?thesis
    using rmtree_clears [OF assms] by (simp add: clear_user_trash_def Let_def)
qed

section \<open>The sweep follows the eviction\<close>

text \<open>
  Claim C1, amended. For every call of the node whose model directory exists: when the
  eviction engine returns, triggered or not, the node then sweeps the trash: the world it
  leaves is the sweep of the world the engine left, and its log is the log of the engine
  followed by an empty line and the line of the sweep, so that nothing is left at or below
  a trash directory in which no removal fails; when the engine raises, as it does when the
  usage probe fails, the node raises the same exception and does not sweep. The engine
  returns whenever the capacity can be read and \<open>stat\<close> raises nothing but
  \<open>FileNotFoundError\<close>.
\<close>

theorem sweep_follows_eviction:
  assumes "exists w loras"
  shows "(\<forall>res w1. purge_oldest_until_below w (run_args loras th tg ac ec m n d) = (Inr res, w1) \<longrightarrow>
            run w loras th tg ac ec m n d =
              (Inr \<lparr>r_log = log res @ [Blank, fst (clear_user_trash w1)],
                    used_before_pct = before_used_pct res,
                    used_after_pct = after_used_pct res,
                    r_files_deleted = files_deleted res,
                    r_bytes_freed = bytes_freed res\<rparr>, snd (clear_user_trash w1)) \<and>
            (is_dir w1 (trash_path w1) \<and> \<not> stuck w1 (trash_path w1) \<longrightarrow>
               (\<forall>p. prefix (trash_path w1) p \<longrightarrow>
                    \<not> exists (snd (run w loras th tg ac ec m n d)) p))) \<and>
         (\<forall>e w1. purge_oldest_until_below w (run_args loras th tg ac ec m n d) = (Inl e, w1) \<longrightarrow>
            run w loras th tg ac ec m n d = (Inl e, w1)) \<and>
         (no_stat_faults w \<and> probe_fault w = None \<longrightarrow>
            (\<exists>res. fst (purge_oldest_until_below w (run_args loras th tg ac ec m n d)) = Inr res))"
proof (intro conjI allI impI)
  fix res w1
  assume p: "purge_oldest_until_below w (run_args loras th tg ac ec m n d) = (Inr res, w1)"
  then show r: "run w loras th tg ac ec m n d =
             (Inr \<lparr>r_log = log res @ [Blank, fst (clear_user_trash w1)],
                   used_before_pct = before_used_pct res,
                   used_after_pct = after_used_pct res,
                   r_files_deleted = files_deleted res,
                   r_bytes_freed = bytes_freed res\<rparr>, snd (clear_user_trash w1))"
    using assms by (simp add: run_from_engine)
  fix q
  assume "is_dir w1 (trash_path w1) \<and> \<not> stuck w1 (trash_path w1)" and "prefix (trash_path w1) q"
  then show "\<not> exists (snd (run w loras th tg ac ec m n d)) q"
    using sweep_clears [of w1 q] r by simp
next
  fix e w1
  assume "purge_oldest_until_below w (run_args loras th tg ac ec m n d) = (Inl e, w1)"
  then show "run w loras th tg ac ec m n d = (Inl e, w1)"
    using assms by (simp add: run_from_engine)
next
  let ?a = "run_args loras th tg ac ec m n d"
  assume "no_stat_faults w \<and> probe_fault w = None"
  moreover have "exists w (root_for_usage ?a)" and "\<not> strict_prefix (loras_dir ?a) (root_for_usage ?a)"
    using assms by (simp_all add: run_args_def)
  ultimately show "\<exists>res. fst (purge_oldest_until_below w ?a) = Inr res"
    using purge_returns [of w ?a] by simp
qed

theorem sweep_follows_eviction_witness:
  "exists ex_world [''m''] \<and>
   is_file ex_world [''h'', ''.local'', ''share'', ''Trash'', ''files'', ''x''] \<and>
   purge_oldest_until_below ex_world (run_args [''m''] 99 85 ''.pt'' ''keep'' 0 0 False) =
      (Inr \<lparr>triggered = False, before_used_pct = 96, after_used_pct = 96,
            files_deleted = 0, bytes_freed = 0, log = [UsageOK 96 99]\<rparr>, ex_world) \<and>
   \<not> exists (snd (run ex_world [''m''] 99 85 ''.pt'' ''keep'' 0 0 False))
        [''h'', ''.local'', ''share'', ''Trash'', ''files'', ''x''] \<and>
   no_stat_faults ex_world \<and> probe_fault ex_world = None \<and>
   (\<exists>res. fst (purge_oldest_until_below ex_world (run_args [''m''] 90 85 ''.pt'' ''keep'' 0 0 False)) =
      Inr res) \<and>
   purge_oldest_until_below ex_unprobed (run_args [''m''] 90 85 ''.pt'' ''keep'' 0 0 False) =
      (Inl OtherOSError, ex_unprobed) \<and>
   run ex_unprobed [''m''] 90 85 ''.pt'' ''keep'' 0 0 False = (Inl OtherOSError, ex_unprobed)"
proof -
  let ?x = "[''h'', ''.local'', ''share'', ''Trash'', ''files'', ''x'']"
  have e: "exists ex_world [''m'']" by (simp add: ex_defs fs_defs)
  have e': "exists ex_unprobed [''m'']" by (simp add: ex_defs fs_defs)
  have f: "is_file ex_world ?x" by (simp add: ex_defs fs_defs)
  have n: "purge_oldest_until_below ex_world (run_args [''m''] 99 85 ''.pt'' ''keep'' 0 0 False) =
      (Inr \<lparr>triggered = False, before_used_pct = 96, after_used_pct = 96,
            files_deleted = 0, bytes_freed = 0, log = [UsageOK 96 99]\<rparr>, ex_world)"
    by (simp add: ex_defs fs_defs str_defs eng_defs)
  have t: "is_dir ex_world (trash_path ex_world) \<and> \<not> stuck ex_world (trash_path ex_world) \<and>
           prefix (trash_path ex_world) ?x"
    by (simp add: ex_defs fs_defs eng_defs)
  have nf: "no_stat_faults ex_world \<and> probe_fault ex_world = None"
    by (simp add: ex_defs eng_defs)
  have u: "purge_oldest_until_below ex_unprobed (run_args [''m''] 90 85 ''.pt'' ''keep'' 0 0 False) =
      (Inl OtherOSError, ex_unprobed)"
    by (simp add: ex_defs fs_defs str_defs eng_defs)
  from sweep_follows_eviction [OF e, where th=99 and tg=85 and ac="''.pt''" and ec="''keep''"
      and m=0 and n=0 and d=False] n t
  have 1: "\<not> exists (snd (run ex_world [''m''] 99 85 ''.pt'' ''keep'' 0 0 False)) ?x"
    by blast
  from sweep_follows_eviction [OF e, where th=90 and tg=85 and ac="''.pt''" and ec="''keep''"
      and m=0 and n=0 and d=False] nf
  have 2: "\<exists>res. fst (purge_oldest_until_below ex_world (run_args [''m''] 90 85 ''.pt'' ''keep'' 0 0 False)) =
      Inr res"
    by blast
  from sweep_follows_eviction [OF e', where th=90 and tg=85 and ac="''.pt''" and ec="''keep''"
      and m=0 and n=0 and d=False] u
  have 3: "run ex_unprobed [''m''] 90 85 ''.pt'' ''keep'' 0 0 False = (Inl OtherOSError, ex_unprobed)"
    by blast
  from e f n 1 nf 2 u 3 show ?thesis by blast
qed

text \<open>
  Claim C1 as stated fails in two ways. When the model directory does not exist the node
  returns its warning at once and the trash, which holds a file, is not swept. And when the
  capacity of the filesystem cannot be read the node raises the exception of the probe and
  leaves the world, trash included, as it found it.
\<close>

theorem missing_root_no_sweep_counterexample:
  "run ex_world [''nowhere''] 90 85 ''.pt'' ''keep'' 0 0 False =
     (Inr \<lparr>r_log = [WarnMissing [''nowhere''], CurrentUsage 96],
           used_before_pct = 96, used_after_pct = 96,
           r_files_deleted = 0, r_bytes_freed = 0\<rparr>, ex_world) \<and>
   is_file ex_world [''h'', ''.local'', ''share'', ''Trash'', ''files'', ''x''] \<and>
   snd (clear_user_trash ex_world) \<noteq> ex_world \<and>
   exists ex_unprobed [''m''] \<and>
   run ex_unprobed [''m''] 90 85 ''.pt'' ''keep'' 0 0 False = (Inl OtherOSError, ex_unprobed) \<and>
   is_file ex_unprobed [''h'', ''.local'', ''share'', ''Trash'', ''files'', ''x''] \<and>
   snd (clear_user_trash ex_unprobed) \<noteq> ex_unprobed"
  by (simp add: ex_defs fs_defs str_defs eng_defs)

section \<open>Failures on single files\<close>

text \<open>
  Claim C2, amended. In a pass through the loop that has not reached the cap:
  a candidate that no longer exists when its \<open>stat\<close> is taken is skipped without a trace,
  neither logged nor counted; a candidate whose deletion raises (permission denied, a
  directory in its place, or any other exception of \<open>unlink\<close>, which is never that of a
  missing file) gets its line in the log, the counters and the world stay as they were, and
  at most the line that the target is reached follows. No exception of a deletion leaves
  the loop: a pass raises only what \<open>stat\<close> raises, other than \<open>FileNotFoundError\<close>, or
  what the usage probe raises. So the engine returns its summary whenever \<open>stat\<close> raises
  nothing but \<open>FileNotFoundError\<close>, the capacity can be read, and the probed path exists
  and is not itself below the model directory.
\<close>

theorem deletion_failures_skipped:
  "(\<not> limit_reached a s \<and> stat (l_world s) f = Inl FileNotFoundError \<longrightarrow>
      purge_step a now f s = Continue s) \<and>
   (\<not> limit_reached a s \<and> stat (l_world s) f = Inr st \<and> \<not> too_fresh a now st \<and>
    \<not> dry_run a \<and> unlink (l_world s) f = Inl e \<longrightarrow>
      e \<noteq> FileNotFoundError \<and>
      (\<exists>ls. flow_state (purge_step a now f s) = s\<lparr>l_lines := l_lines s @ skip_line f e # ls\<rparr> \<and>
            deleted_paths ls = [])) \<and>
   (purge_step a now f s = Raise e' s' \<longrightarrow>
      stat (l_world s) f = Inl e' \<and> e' \<noteq> FileNotFoundError \<or>
      disk_usage_percent (l_world s') (root_for_usage a) = Inl e') \<and>
   (no_stat_faults w \<and> probe_fault w = None \<and> exists w (root_for_usage a) \<and>
    \<not> strict_prefix (loras_dir a) (root_for_usage a) \<longrightarrow>
      (\<exists>res. fst (purge_oldest_until_below w a) = Inr res))"
proof (intro conjI impI)
  assume "\<not> limit_reached a s \<and> stat (l_world s) f = Inl FileNotFoundError"
  then show "purge_step a now f s = Continue s"
    by (simp add: purge_step_def)
next
  assume h: "\<not> limit_reached a s \<and> stat (l_world s) f = Inr st \<and> \<not> too_fresh a now st \<and>
    \<not> dry_run a \<and> unlink (l_world s) f = Inl e"
  then show "e \<noteq> FileNotFoundError"
    using unlink_not_missing [of "l_world s" f] by auto
  from h have at: "attempt a f (st_size st) s = s\<lparr>l_lines := l_lines s @ [skip_line f e]\<rparr>"
    by (simp add: attempt_def)
  show "\<exists>ls. flow_state (purge_step a now f s) = s\<lparr>l_lines := l_lines s @ skip_line f e # ls\<rparr> \<and>
            deleted_paths ls = []"
  proof (cases "disk_usage_percent (l_world s) (root_for_usage a)")
    case (Inl x)
    with h at have "flow_state (purge_step a now f s) = s\<lparr>l_lines := l_lines s @ skip_line f e # []\<rparr>
        \<and> deleted_paths [] = []"
      by (simp add: purge_step_def)
    then show ?thesis by blast
  next
    case (Inr pct)
    show ?thesis
    proof (cases "pct < target_percent a")
      case True
      with Inr h at have "flow_state (purge_step a now f s) =
          s\<lparr>l_lines := l_lines s @ skip_line f e # [ReachedTarget pct (target_percent a)]\<rparr>
          \<and> deleted_paths [ReachedTarget pct (target_percent a)] = []"
        by (simp add: purge_step_def)
      then show ?thesis by blast
    next
      case False
      with Inr h at have "flow_state (purge_step a now f s) = s\<lparr>l_lines := l_lines s @ skip_line f e # []\<rparr>
        \<and> deleted_paths [] = []"
        by (simp add: purge_step_def)
      then show ?thesis by blast
    qed
  qed
next
  assume r: "purge_step a now f s = Raise e' s'"
  show "stat (l_world s) f = Inl e' \<and> e' \<noteq> FileNotFoundError \<or>
        disk_usage_percent (l_world s') (root_for_usage a) = Inl e'"
  proof (cases rule: purge_step_cases [where a=a and s=s and now=now and f=f])
    case limit
    with r show ?thesis by simp
  next
    case gone
    with r show ?thesis by simp
  next
    case (stat_raised e)
    with r show ?thesis by simp
  next
    case (fresh st)
    with r show ?thesis by simp
  next
    case (tried st)
    with r show ?thesis by (auto split: sum.splits if_splits)
  qed
next
  assume "no_stat_faults w \<and> probe_fault w = None \<and> exists w (root_for_usage a) \<and>
    \<not> strict_prefix (loras_dir a) (root_for_usage a)"
  then show "\<exists>res. fst (purge_oldest_until_below w a) = Inr res"
    using purge_returns [of w a] by simp
qed

theorem deletion_failures_skipped_witness:
  "\<not> limit_reached (ex_args 0 0 False) (init_state (ex_args 0 0 False) ex_locked 96) \<and>
   stat ex_locked [''m'', ''gone.pt''] = Inl FileNotFoundError \<and>
   purge_step (ex_args 0 0 False) 100 [''m'', ''gone.pt''] (init_state (ex_args 0 0 False) ex_locked 96) =
     Continue (init_state (ex_args 0 0 False) ex_locked 96) \<and>
   unlink ex_locked [''m'', ''a.pt''] = Inl PermissionError \<and>
   (\<exists>ls. flow_state (purge_step (ex_args 0 0 False) 100 [''m'', ''a.pt'']
                       (init_state (ex_args 0 0 False) ex_locked 96)) =
           (init_state (ex_args 0 0 False) ex_locked 96)
             \<lparr>l_lines := l_lines (init_state (ex_args 0 0 False) ex_locked 96) @
                          skip_line [''m'', ''a.pt''] PermissionError # ls\<rparr> \<and>
         deleted_paths ls = []) \<and>
   purge_step (ex_args 0 0 False) 100 [''m'', ''a.pt''] (init_state (ex_args 0 0 False) ex_denied 96) =
     Raise PermissionError (init_state (ex_args 0 0 False) ex_denied 96) \<and>
   stat ex_denied [''m'', ''a.pt''] = Inl PermissionError \<and>
   no_stat_faults ex_locked \<and> probe_fault ex_locked = None \<and> exists ex_locked [''m''] \<and>
   (\<exists>res. fst (purge_oldest_until_below ex_locked (ex_args 0 0 False)) = Inr res) \<and>
   map_sum id (\<lambda>r. (files_deleted r, bytes_freed r, drop 10 (log r)))
     (fst (purge_oldest_until_below ex_locked (ex_args 0 0 False))) =
     Inr (1, 3, [SkipPermission [''m'', ''a.pt''], DeletedLine [''m'', ''b.pt''] 3])"
proof -
  let ?a = "ex_args 0 0 False"
  let ?s = "init_state ?a ex_locked 96"
  let ?d = "init_state ?a ex_denied 96"
  have l: "\<not> limit_reached ?a ?s" by (simp add: ex_defs eng_defs)
  have g: "stat (l_world ?s) [''m'', ''gone.pt''] = Inl FileNotFoundError"
    by (simp add: ex_defs fs_defs eng_defs)
  have st: "stat (l_world ?s) [''m'', ''a.pt''] = Inr ((ex_file 5 10)\<lparr>remove_fault := Some PermissionError\<rparr>)"
    by (simp add: ex_defs fs_defs eng_defs)
  have fr: "\<not> too_fresh ?a 100 ((ex_file 5 10)\<lparr>remove_fault := Some PermissionError\<rparr>)"
    by (simp add: ex_defs eng_defs)
  have d: "\<not> dry_run ?a" by (simp add: ex_defs)
  have u: "unlink (l_world ?s) [''m'', ''a.pt''] = Inl PermissionError"
    by (simp add: ex_defs fs_defs eng_defs)
  have e: "no_stat_faults ex_locked \<and> probe_fault ex_locked = None \<and>
           exists ex_locked (root_for_usage ?a) \<and> \<not> strict_prefix (loras_dir ?a) (root_for_usage ?a)"
    by (simp add: ex_defs fs_defs eng_defs)
  have r: "map_sum id (\<lambda>r. (files_deleted r, bytes_freed r, drop 10 (log r)))
     (fst (purge_oldest_until_below ex_locked ?a)) =
     Inr (1, 3, [SkipPermission [''m'', ''a.pt''], DeletedLine [''m'', ''b.pt''] 3])"
    by (simp add: ex_defs fs_defs str_defs eng_defs)
  have ra: "purge_step ?a 100 [''m'', ''a.pt''] ?d = Raise PermissionError ?d"
    by (simp add: ex_defs fs_defs eng_defs)
  have w: "l_world ?s = ex_locked" and wd: "l_world ?d = ex_denied" and rt: "root_for_usage ?a = [''m'']"
    by (simp_all add: ex_defs eng_defs)
  have np: "disk_usage_percent ex_denied [''m''] \<noteq> Inl PermissionError"
    by (simp add: ex_defs fs_defs)
  from deletion_failures_skipped [where a="?a" and s="?s" and f="[''m'', ''gone.pt'']" and now=100 and w=ex_locked] l g e
  have 1: "purge_step ?a 100 [''m'', ''gone.pt''] ?s = Continue ?s"
    and 3: "\<exists>res. fst (purge_oldest_until_below ex_locked ?a) = Inr res"
    by blast+
  from deletion_failures_skipped [where a="?a" and s="?s" and f="[''m'', ''a.pt'']" and now=100
      and st="(ex_file 5 10)\<lparr>remove_fault := Some PermissionError\<rparr>" and e=PermissionError] l st fr d u
  have 2: "\<exists>ls. flow_state (purge_step ?a 100 [''m'', ''a.pt''] ?s) =
           ?s\<lparr>l_lines := l_lines ?s @ skip_line [''m'', ''a.pt''] PermissionError # ls\<rparr> \<and>
         deleted_paths ls = []"
    by blast
  from deletion_failures_skipped [where a="?a" and s="?d" and f="[''m'', ''a.pt'']" and now=100
      and e'=PermissionError and s'="?d"] ra np
  have 4: "stat ex_denied [''m'', ''a.pt''] = Inl PermissionError"
    unfolding wd rt by blast
  from l g u e 1 2 3 4 ra r show ?thesis
    unfolding w rt by blast
qed

text \<open>
  Claim C2 as stated fails in three ways. A candidate that no longer exists when the loop
  reaches it is skipped, but nothing is logged for it: the loop ends with the log it
  started with. A file that another process removes after the \<open>stat\<close> of the loop and
  before its \<open>unlink\<close> is not skipped: it is logged as deleted and counted, with its size.
  And a candidate on which \<open>stat\<close> raises \<open>PermissionError\<close> ends the loop with that
  exception.
\<close>

theorem missing_candidate_not_logged_counterexample:
  "stat ex_world [''m'', ''gone.pt''] = Inl FileNotFoundError \<and>
   purge_loop (ex_args 0 0 False) 100 [[''m'', ''gone.pt'']] (init_state (ex_args 0 0 False) ex_world 96) =
     (None, init_state (ex_args 0 0 False) ex_world 96) \<and>
   remove_fault (projr (stat ex_raced [''m'', ''a.pt''])) = Some FileNotFoundError \<and>
   l_files_deleted (attempt (ex_args 0 0 False) [''m'', ''a.pt''] 5
                      (init_state (ex_args 0 0 False) ex_raced 96)) = 1 \<and>
   l_bytes_freed (attempt (ex_args 0 0 False) [''m'', ''a.pt''] 5
                      (init_state (ex_args 0 0 False) ex_raced 96)) = 5 \<and>
   l_lines (attempt (ex_args 0 0 False) [''m'', ''a.pt''] 5
                      (init_state (ex_args 0 0 False) ex_raced 96)) =
     header_lines (ex_args 0 0 False) 96 @ [DeletedLine [''m'', ''a.pt''] 5] \<and>
   stat ex_denied [''m'', ''a.pt''] = Inl PermissionError \<and>
   purge_loop (ex_args 0 0 False) 100 [[''m'', ''a.pt''], [''m'', ''b.pt'']]
       (init_state (ex_args 0 0 False) ex_denied 96) =
     (Some PermissionError, init_state (ex_args 0 0 False) ex_denied 96)"
  by (simp add: ex_defs fs_defs eng_defs)

section \<open>Dry runs\<close>

text \<open>A dry run of the engine leaves the world alone.\<close>

lemma purge_dry_world:
  assumes "dry_run a"
  shows "snd (purge_oldest_until_below w a) = w"
proof -
  have "l_world (snd (purge_loop a (clock w) fs (init_state a w b))) = w" for fs b
    using purge_loop_dry [OF assms, of "clock w" fs "init_state a w b"] by simp
  then show ?thesis
    by (cases rule: purge_cases [where w=w and a=a]) (simp_all, (metis snd_conv)+)
qed

text \<open>
  Claim C3. A run with dry-run enabled is to perform no filesystem mutation. The eviction
  engine keeps to that, but the node does not: it sweeps the trash in a dry run as in any
  other, so the file in the trash is gone afterwards and the world is not the one the run
  found.
\<close>

theorem dry_run_sweeps_trash:
  "is_file ex_world [''h'', ''.local'', ''share'', ''Trash'', ''files'', ''x''] \<and>
   snd (purge_oldest_until_below ex_world (run_args [''m''] 90 85 ''.pt'' ''keep'' 0 0 True)) = ex_world \<and>
   \<not> exists (snd (run ex_world [''m''] 90 85 ''.pt'' ''keep'' 0 0 True))
        [''h'', ''.local'', ''share'', ''Trash'', ''files'', ''x''] \<and>
   snd (run ex_world [''m''] 90 85 ''.pt'' ''keep'' 0 0 True) \<noteq> ex_world"
proof -
  have 1: "is_file ex_world [''h'', ''.local'', ''share'', ''Trash'', ''files'', ''x'']"
    by (simp add: ex_defs fs_defs)
  have 2: "\<not> exists (snd (run ex_world [''m''] 90 85 ''.pt'' ''keep'' 0 0 True))
        [''h'', ''.local'', ''share'', ''Trash'', ''files'', ''x'']"
    by (simp add: ex_defs fs_defs str_defs eng_defs)
  have 3: "snd (purge_oldest_until_below ex_world (run_args [''m''] 90 85 ''.pt'' ''keep'' 0 0 True)) = ex_world"
    by (rule purge_dry_world) (simp add: run_args_def)
  from 1 have "exists ex_world [''h'', ''.local'', ''share'', ''Trash'', ''files'', ''x'']"
    by (simp add: is_file_def exists_def split: sum.splits)
  with 2 have "snd (run ex_world [''m''] 90 85 ''.pt'' ''keep'' 0 0 True) \<noteq> ex_world"
    by auto
  with 1 2 3 show ?thesis by simp
qed

section \<open>Repeating a dry run\<close>

lemma stat_clock [simp]: "stat (w\<lparr>clock := t\<rparr>) p = stat w p"
  by (simp add: stat_def)

lemma disk_used_clock [simp]: "disk_used (w\<lparr>clock := t\<rparr>) = disk_used w"
  by (simp add: disk_used_def)

lemma clock_irrelevant [simp]:
  "exists (w\<lparr>clock := t\<rparr>) p = exists w p"
  "is_dir (w\<lparr>clock := t\<rparr>) p = is_dir w p"
  "is_file (w\<lparr>clock := t\<rparr>) = is_file w"
  "rglob (w\<lparr>clock := t\<rparr>) d = rglob w d"
  "readable (w\<lparr>clock := t\<rparr>) p = readable w p"
  by (simp_all add: exists_def is_dir_def is_file_def rglob_def readable_def fun_eq_iff)

lemma probe_clock [simp]: "disk_usage_percent (w\<lparr>clock := t\<rparr>) p = disk_usage_percent w p"
  by (auto simp: disk_usage_percent_def Let_def split: sum.splits option.splits)

lemma collect_clock [simp]:
  "collect_lora_files (w\<lparr>clock := t\<rparr>) d al ex = collect_lora_files w d al ex"
proof -
  have "collect_keep (w\<lparr>clock := t\<rparr>) al ex = collect_keep w al ex"
    by (simp add: collect_keep_def fun_eq_iff)
  then show ?thesis by (simp add: collect_lora_files_def)
qed

lemma insort_key_cong_on:
  "\<forall>x \<in> set (y # xs). f x = g x \<Longrightarrow> insort_key f y xs = insort_key g y xs"
  by (induction xs) auto

lemma sort_key_cong_on:
  "\<forall>x \<in> set xs. f x = g x \<Longrightarrow> sort_key f xs = sort_key g xs"
proof (induction xs)
  case Nil
  then show ?case by simp
next
  case (Cons x xs)
  then have "sort_key f xs = sort_key g xs" by simp
  moreover have "\<forall>z \<in> set (x # sort_key g xs). f z = g z"
    using Cons.prems by simp
  ultimately show ?case
    using insort_key_cong_on [of x "sort_key g xs" f g] by simp
qed

lemma candidates_clock:
  "sort_key (effective_mtime (w\<lparr>clock := t\<rparr>)) (collect_lora_files w d al ex) =
   sort_key (effective_mtime w) (collect_lora_files w d al ex)"
proof (rule sort_key_cong_on, rule ballI)
  fix p
  assume "p \<in> set (collect_lora_files w d al ex)"
  then have "is_file w p"
    by (auto simp: collect_lora_files_def collect_keep_def split: if_splits)
  then obtain e where "stat w p = Inr e"
    by (auto simp: is_file_def split: sum.splits)
  then show "effective_mtime (w\<lparr>clock := t\<rparr>) p = effective_mtime w p"
    by (simp add: effective_mtime_simps)
qed

text \<open>Without a minimum age, a pass of a dry run does not depend on the time.\<close>

lemma purge_step_clock:
  assumes "dry_run a" and "min_age_seconds a \<le> 0"
  shows "purge_step a now' f (s\<lparr>l_world := (l_world s)\<lparr>clock := t\<rparr>\<rparr>) =
           (case purge_step a now f s of
              Continue s1 \<Rightarrow> Continue (s1\<lparr>l_world := (l_world s)\<lparr>clock := t\<rparr>\<rparr>)
            | Break s1 \<Rightarrow> Break (s1\<lparr>l_world := (l_world s)\<lparr>clock := t\<rparr>\<rparr>)
            | Raise e s1 \<Rightarrow> Raise e (s1\<lparr>l_world := (l_world s)\<lparr>clock := t\<rparr>\<rparr>))"
  using assms
  by (auto simp: purge_step_def attempt_def limit_reached_def too_fresh_def Let_def
      split: sum.splits)

lemma purge_loop_clock:
  assumes "dry_run a" and "min_age_seconds a \<le> 0"
  shows "purge_loop a now' fs (s\<lparr>l_world := (l_world s)\<lparr>clock := t\<rparr>\<rparr>) =
           (fst (purge_loop a now fs s),
            (snd (purge_loop a now fs s))\<lparr>l_world := (l_world s)\<lparr>clock := t\<rparr>\<rparr>)"
proof (induction fs arbitrary: s)
  case Nil
  then show ?case by simp
next
  case (Cons f fs)
  show ?case
  proof (cases "purge_step a now f s")
    case (Continue s1)
    have "l_world s1 = l_world s"
      using purge_step_effect [where a=a and now=now and f=f and s=s] assms(1) Continue by auto
    with Cons.IH [of s1] Continue purge_step_clock [OF assms, where now'=now' and f=f and s=s and t=t and now=now]
    show ?thesis by simp
  next
    case (Break s1)
    with purge_step_clock [OF assms, where now'=now' and f=f and s=s and t=t and now=now] show ?thesis by simp
  next
    case (Raise e s1)
    with purge_step_clock [OF assms, where now'=now' and f=f and s=s and t=t and now=now] show ?thesis by simp
  qed
qed

lemma purge_clock:
  assumes "dry_run a" and "min_age_seconds a \<le> 0"
  shows "purge_oldest_until_below (w\<lparr>clock := t\<rparr>) a =
           (fst (purge_oldest_until_below w a), w\<lparr>clock := t\<rparr>)"
proof -
  let ?fs = "sort_key (effective_mtime w)
               (collect_lora_files w (loras_dir a) (allowed_suffixes a) (exclude_names a))"
  have init: "init_state a (w\<lparr>clock := t\<rparr>) b =
      (init_state a w b)\<lparr>l_world := (l_world (init_state a w b))\<lparr>clock := t\<rparr>\<rparr>" for b
    by (simp add: init_state_def)
  have loop: "purge_loop a t ?fs (init_state a (w\<lparr>clock := t\<rparr>) b) =
      (fst (purge_loop a (clock w) ?fs (init_state a w b)),
       (snd (purge_loop a (clock w) ?fs (init_state a w b)))\<lparr>l_world := w\<lparr>clock := t\<rparr>\<rparr>)" for b
    unfolding init
    using purge_loop_clock [OF assms, where now'=t and fs="?fs" and s="init_state a w b" and t=t
        and now="clock w"]
    by simp
  have fs: "sort_files (w\<lparr>clock := t\<rparr>)
              (collect_lora_files (w\<lparr>clock := t\<rparr>) (loras_dir a) (allowed_suffixes a) (exclude_names a)) =
            Inr ?fs"
    using is_file_readable [OF collect_is_file, of _ w]
    by (simp add: sort_files_eq candidates_clock)
  have unfold: "purge_oldest_until_below (w\<lparr>clock := t\<rparr>) a =
     (case disk_usage_percent w (root_for_usage a) of
        Inl e \<Rightarrow> (Inl e, w\<lparr>clock := t\<rparr>)
      | Inr b \<Rightarrow>
          if b < threshold_percent a
          then (Inr \<lparr>triggered = False, before_used_pct = b, after_used_pct = b,
                     files_deleted = 0, bytes_freed = 0,
                     log = [UsageOK b (threshold_percent a)]\<rparr>, w\<lparr>clock := t\<rparr>)
          else (case fst (purge_loop a (clock w) ?fs (init_state a w b)) of
                  Some e \<Rightarrow> (Inl e, w\<lparr>clock := t\<rparr>)
                | None \<Rightarrow>
                    (case disk_usage_percent w (root_for_usage a) of
                       Inl e \<Rightarrow> (Inl e, w\<lparr>clock := t\<rparr>)
                     | Inr c \<Rightarrow>
                         (Inr (summary b c (snd (purge_loop a (clock w) ?fs (init_state a w b)))),
                          w\<lparr>clock := t\<rparr>))))"
    unfolding purge_oldest_until_below_def fs
    by (simp add: loop summary_def split: sum.splits option.splits)
  have lw: "l_world (snd (purge_loop a (clock w) ?fs (init_state a w b))) = w" for b
    using purge_loop_dry [OF assms(1), of "clock w" ?fs "init_state a w b"] by simp
  show ?thesis
  proof (cases rule: purge_cases [where w=w and a=a])
    case (probe_failed e)
    then show ?thesis by (simp add: unfold)
  next
    case (below b)
    then show ?thesis by (simp add: unfold)
  next
    case (raised b e s)
    then show ?thesis by (simp add: unfold)
  next
    case (after_failed b e s)
    with lw [of b] show ?thesis by (simp add: unfold)
  next
    case (returned b s c)
    with lw [of b] show ?thesis by (simp add: unfold)
  qed
qed

text \<open>
  Claim C10, amended. When no minimum age is configured, a dry run of the engine leaves the
  world as it found it, and a second dry run on that world, at whatever time, has the same
  outcome as the first: the same summary, with the same deletions reported and the same
  bytes counted. (At the same time of day this holds with any minimum age, the engine
  being a function of the world; with a minimum age the outcome depends on the time.)
\<close>

theorem dry_run_repeatable:
  assumes "dry_run a" and "min_age_seconds a \<le> 0"
  shows "snd (purge_oldest_until_below w a) = w \<and>
         purge_oldest_until_below (w\<lparr>clock := t\<rparr>) a =
           (fst (purge_oldest_until_below w a), w\<lparr>clock := t\<rparr>)"
  using purge_dry_world [OF assms(1), of w] purge_clock [OF assms, where w=w and t=t] by simp

theorem dry_run_repeatable_witness:
  "dry_run (ex_args 0 0 True) \<and> min_age_seconds (ex_args 0 0 True) \<le> 0 \<and>
   snd (purge_oldest_until_below ex_world (ex_args 0 0 True)) = ex_world \<and>
   fst (purge_oldest_until_below ex_world (ex_args 0 0 True)) =
     Inr (summary 96 96 \<lparr>l_world = ex_world, l_bytes_freed = 8, l_files_deleted = 2,
            l_lines = header_lines (ex_args 0 0 True) 96 @
               [DryRunLine [''m'', ''a.pt''] 5, DryRunLine [''m'', ''b.pt''] 3]\<rparr>) \<and>
   purge_oldest_until_below (ex_world\<lparr>clock := 5000\<rparr>) (ex_args 0 0 True) =
     (Inr (summary 96 96 \<lparr>l_world = ex_world, l_bytes_freed = 8, l_files_deleted = 2,
            l_lines = header_lines (ex_args 0 0 True) 96 @
               [DryRunLine [''m'', ''a.pt''] 5, DryRunLine [''m'', ''b.pt''] 3]\<rparr>),
      ex_world\<lparr>clock := 5000\<rparr>)"
proof -
  have d: "dry_run (ex_args 0 0 True)" and m: "min_age_seconds (ex_args 0 0 True) \<le> 0"
    by (simp_all add: ex_defs)
  have r: "fst (purge_oldest_until_below ex_world (ex_args 0 0 True)) =
     Inr (summary 96 96 \<lparr>l_world = ex_world, l_bytes_freed = 8, l_files_deleted = 2,
            l_lines = header_lines (ex_args 0 0 True) 96 @
               [DryRunLine [''m'', ''a.pt''] 5, DryRunLine [''m'', ''b.pt''] 3]\<rparr>)"
    by (simp add: ex_defs fs_defs str_defs eng_defs)
  from dry_run_repeatable [OF d m, where w=ex_world and t=5000] d m r show ?thesis by simp
qed

text \<open>
  Claim C10 as stated fails: with a minimum age of 60 seconds, a dry run at time 100
  reports one deletion of 5 bytes and leaves the filesystem as it was; a second dry run on
  the same filesystem at time 200 reports two deletions and 8 bytes.
\<close>

theorem dry_run_depends_on_time_counterexample:
  "purge_oldest_until_below ex_world (ex_args 60 0 True) =
     (Inr (summary 96 96 \<lparr>l_world = ex_world, l_bytes_freed = 5, l_files_deleted = 1,
             l_lines = header_lines (ex_args 60 0 True) 96 @ [DryRunLine [''m'', ''a.pt''] 5]\<rparr>),
      ex_world) \<and>
   entries (ex_world\<lparr>clock := 200\<rparr>) = entries ex_world \<and>
   purge_oldest_until_below (ex_world\<lparr>clock := 200\<rparr>) (ex_args 60 0 True) =
     (Inr (summary 96 96 \<lparr>l_world = ex_world\<lparr>clock := 200\<rparr>, l_bytes_freed = 8, l_files_deleted = 2,
             l_lines = header_lines (ex_args 60 0 True) 96 @
                [DryRunLine [''m'', ''a.pt''] 5, DryRunLine [''m'', ''b.pt''] 3]\<rparr>),
      ex_world\<lparr>clock := 200\<rparr>)"
  by (simp add: ex_defs fs_defs str_defs eng_defs)

end
